theory Spec2Isabelle
  imports Complex_Main "HOL-Library.AList"
begin

section \<open>Errors\<close>

text \<open>
  The exceptions the three programs can raise, as values. A function that can raise
  returns \<open>error + 'a\<close>, with \<open>Inl\<close> for the exception.
\<close>

datatype error =
    IllegalAction        \<comment> \<open>\<^verbatim>\<open>raise Exception("Illegal aciton")\<close> in \<^verbatim>\<open>result\<close>\<close>
  | IndexError
  | KeyError
  | TypeError
  | UnboundLocalError
  | ValueError
  | ZeroDivisionError

section \<open>Project 0: tic-tac-toe\<close>

subsection \<open>Boards\<close>

text \<open>
  \<^verbatim>\<open>X = "X"\<close>, \<^verbatim>\<open>O = "O"\<close>, \<^verbatim>\<open>EMPTY = None\<close>: a cell is \<open>None\<close> or one of the two
  marks, \<open>MarkX\<close> and \<open>MarkO\<close> (the name \<open>O\<close> is taken by relation composition).
  A board is a list of rows, as in the source. Every function of the source
  reads the cells \<open>board[r][c]\<close> with \<open>r, c\<close> in \<open>range(3)\<close>; the boards it is
  meant for are the 3 by 3 grids, \<open>wf_board\<close>.
\<close>

datatype mark = MarkX | MarkO

type_synonym cell = "mark option"
type_synonym board = "cell list list"
type_synonym action = "int \<times> int"

definition wf_board :: "board \<Rightarrow> bool" where
  "wf_board board \<longleftrightarrow> length board = 3 \<and> list_all (\<lambda>row. length row = 3) board"

definition initial_state :: board where
  "initial_state = [[None, None, None],
                    [None, None, None],
                    [None, None, None]]"

text \<open>The index pairs of the nested loops \<^verbatim>\<open>for r in range(3): for c in range(3)\<close>.\<close>

definition cells :: "(nat \<times> nat) list" where
  "cells = concat (map (\<lambda>r. map (\<lambda>c. (r, c)) [0..<3]) [0..<3])"

text \<open>\<^verbatim>\<open>player\<close>: count both marks, X moves when the counts are equal.\<close>

definition mark_counts :: "board \<Rightarrow> nat \<times> nat" where
  "mark_counts board =
     fold (\<lambda>(r, c) (count_x, count_o).
             if board ! r ! c = Some MarkX then (count_x + 1, count_o)
             else if board ! r ! c = Some MarkO then (count_x, count_o + 1)
             else (count_x, count_o))
          cells (0, 0)"

definition player :: "board \<Rightarrow> mark" where
  "player board = (case mark_counts board of (count_x, count_o) \<Rightarrow>
                     if count_x = count_o then MarkX else MarkO)"

text \<open>
  \<^verbatim>\<open>actions\<close>: the set of the empty cells' coordinates. Python iterates a set in an
  order the language leaves open; the functions that loop over \<^verbatim>\<open>actions(board)\<close>
  take that order as a parameter \<open>iter\<close>, which lists the elements of a set.
\<close>

definition actions :: "board \<Rightarrow> action set" where
  "actions board =
     set (map (\<lambda>(row, cell). (int row, int cell))
           (filter (\<lambda>(row, cell). board ! row ! cell = None) cells))"

text \<open>
  Python's subscript: a negative index counts from the end, an index out of range
  raises IndexError.
\<close>

definition subscript :: "'a list \<Rightarrow> int \<Rightarrow> error + nat" where
  "subscript xs i =
     (let n = int (length xs); j = (if i < 0 then n + i else i)
      in if 0 \<le> j \<and> j < n then Inr (nat j) else Inl IndexError)"

text \<open>
  \<^verbatim>\<open>result\<close>: raise on an occupied cell, else deep-copy the board and write the mover's
  mark into the copy.
\<close>

definition result :: "board \<Rightarrow> action \<Rightarrow> error + board" where
  "result board action =
     (case subscript board (fst action) of
        Inl e \<Rightarrow> Inl e
      | Inr i \<Rightarrow>
          (case subscript (board ! i) (snd action) of
             Inl e \<Rightarrow> Inl e
           | Inr j \<Rightarrow>
               if board ! i ! j \<noteq> None then Inl IllegalAction
               else Inr (board[i := (board ! i)[j := Some (player board)]])))"

text \<open>
  \<^verbatim>\<open>winner\<close>: for O first and then X, a full row, a full column or a full diagonal.
\<close>

definition has_line :: "mark \<Rightarrow> board \<Rightarrow> bool" where
  "has_line cur_player board \<longleftrightarrow>
     list_ex (\<lambda>i. board ! i ! 0 = Some cur_player \<and> board ! i ! 1 = Some cur_player
                 \<and> board ! i ! 2 = Some cur_player) [0..<3]
     \<or> list_ex (\<lambda>i. board ! 0 ! i = Some cur_player \<and> board ! 1 ! i = Some cur_player
                 \<and> board ! 2 ! i = Some cur_player) [0..<3]
     \<or> (board ! 0 ! 0 = Some cur_player \<and> board ! 1 ! 1 = Some cur_player
          \<and> board ! 2 ! 2 = Some cur_player)
     \<or> (board ! 0 ! 2 = Some cur_player \<and> board ! 1 ! 1 = Some cur_player
          \<and> board ! 2 ! 0 = Some cur_player)"

definition winner :: "board \<Rightarrow> mark option" where
  "winner board = (if has_line MarkO board then Some MarkO
                   else if has_line MarkX board then Some MarkX
                   else None)"

definition terminal :: "board \<Rightarrow> bool" where
  "terminal board \<longleftrightarrow>
     winner board \<noteq> None \<or> \<not> list_ex (\<lambda>(r, c). board ! r ! c = None) cells"

definition utility :: "board \<Rightarrow> int" where
  "utility board = (if winner board = Some MarkX then 1
                    else if winner board = Some MarkO then - 1
                    else 0)"

subsection \<open>Minimax\<close>

text \<open>
  The running value \<open>v\<close> starts at \<^verbatim>\<open>-math.inf\<close> or \<^verbatim>\<open>math.inf\<close>; the utilities are
  integers.
\<close>

datatype score = NegInf | Fin int | PosInf

fun score_less :: "score \<Rightarrow> score \<Rightarrow> bool" where
  "score_less NegInf NegInf = False"
| "score_less NegInf _ = True"
| "score_less (Fin a) (Fin b) = (a < b)"
| "score_less (Fin a) PosInf = True"
| "score_less (Fin a) NegInf = False"
| "score_less PosInf _ = False"

text \<open>Python's \<^verbatim>\<open>max(v, w)\<close> keeps \<open>v\<close> unless \<open>w\<close> is greater; \<^verbatim>\<open>min\<close> likewise.\<close>

definition score_max :: "score \<Rightarrow> score \<Rightarrow> score" where
  "score_max v w = (if score_less v w then w else v)"

definition score_min :: "score \<Rightarrow> score \<Rightarrow> score" where
  "score_min v w = (if score_less w v then w else v)"

text \<open>The number of empty cells: what every move decreases.\<close>

definition empties :: "board \<Rightarrow> nat" where
  "empties board = count_list (concat board) None"

lemma count_list_update:
  "j < length row \<Longrightarrow>
   count_list (row[j := y]) z + (if row ! j = z then 1 else 0)
     = count_list row z + (if y = z then 1 else 0)"
proof (induction row arbitrary: j)
  case Nil
  then show ?case by simp
next
  case (Cons c row)
  show ?case
  proof (cases j)
    case 0
    then show ?thesis by simp
  next
    case (Suc k)
    with Cons.prems have "k < length row" by simp
    from Cons.IH [OF this] Suc show ?thesis by (auto split: if_splits)
  qed
qed

lemma count_concat_update:
  assumes "i < length board" and "j < length (board ! i)"
  shows "count_list (concat (board[i := (board ! i)[j := y]])) z
           + (if board ! i ! j = z then 1 else 0)
         = count_list (concat board) z + (if y = z then 1 else 0)"
proof -
  have split: "board = take i board @ (board ! i) # drop (Suc i) board"
    using assms(1) by (simp add: id_take_nth_drop)
  have upd: "board[i := (board ! i)[j := y]]
             = take i board @ ((board ! i)[j := y]) # drop (Suc i) board"
    using assms(1) by (simp add: upd_conv_take_nth_drop)
  have old: "count_list (concat board) z = count_list (concat (take i board)) z
          + count_list (board ! i) z + count_list (concat (drop (Suc i) board)) z"
    by (subst split) simp
  have new: "count_list (concat (board[i := (board ! i)[j := y]])) z
          = count_list (concat (take i board)) z
          + count_list ((board ! i)[j := y]) z
          + count_list (concat (drop (Suc i) board)) z"
    unfolding upd by simp
  show ?thesis
    unfolding old new using count_list_update [OF assms(2), of y z] by simp
qed

lemma empties_update:
  assumes "i < length board" and "j < length (board ! i)" and "board ! i ! j = None"
  shows "Suc (empties (board[i := (board ! i)[j := Some m]])) = empties board"
  using count_concat_update [OF assms(1,2), of "Some m" None] assms(3)
  by (simp add: empties_def)

lemma subscript_Inr: "subscript xs i = Inr k \<Longrightarrow> k < length xs"
  by (auto simp: subscript_def Let_def split: if_splits)

lemma result_empties:
  assumes "result board action = Inr b'"
  shows "empties b' < empties board"
proof -
  from assms obtain i j where
    i: "subscript board (fst action) = Inr i" and
    j: "subscript (board ! i) (snd action) = Inr j" and
    e: "board ! i ! j = None" and
    b': "b' = board[i := (board ! i)[j := Some (player board)]]"
    by (auto simp: result_def split: sum.splits if_splits)
  from empties_update [OF subscript_Inr [OF i] subscript_Inr [OF j] e, of "player board"]
  show ?thesis unfolding b' by simp
qed

text \<open>
  \<^verbatim>\<open>max_value\<close> and \<^verbatim>\<open>min_value\<close>: the utility of a terminal board, else the best value
  of the boards one move away. An exception of \<^verbatim>\<open>result\<close> ends the loop.
\<close>

function max_value :: "(action set \<Rightarrow> action list) \<Rightarrow> board \<Rightarrow> error + score"
  and min_value :: "(action set \<Rightarrow> action list) \<Rightarrow> board \<Rightarrow> error + score" where
  "max_value iter board =
     (if terminal board then Inr (Fin (utility board))
      else fold (\<lambda>action acc.
                   case acc of
                     Inl e \<Rightarrow> Inl e
                   | Inr v \<Rightarrow>
                       (case result board action of
                          Inl e \<Rightarrow> Inl e
                        | Inr b' \<Rightarrow>
                            (case min_value iter b' of
                               Inl e \<Rightarrow> Inl e
                             | Inr w \<Rightarrow> Inr (score_max v w))))
                (iter (actions board)) (Inr NegInf))"
| "min_value iter board =
     (if terminal board then Inr (Fin (utility board))
      else fold (\<lambda>action acc.
                   case acc of
                     Inl e \<Rightarrow> Inl e
                   | Inr v \<Rightarrow>
                       (case result board action of
                          Inl e \<Rightarrow> Inl e
                        | Inr b' \<Rightarrow>
                            (case max_value iter b' of
                               Inl e \<Rightarrow> Inl e
                             | Inr w \<Rightarrow> Inr (score_min v w))))
                (iter (actions board)) (Inr PosInf))"
  by pat_completeness auto
termination
  by (relation "measure (\<lambda>x. case x of Inl (_, b) \<Rightarrow> empties b | Inr (_, b) \<Rightarrow> empties b)")
     (auto dest: result_empties)

text \<open>
  \<^verbatim>\<open>minimax\<close>: \<open>None\<close> on a terminal board; else the first action, in iteration
  order, whose value is strictly better than the running value. The local
  \<^verbatim>\<open>optimal_move\<close> is unbound until the first assignment.
\<close>

definition minimax :: "(action set \<Rightarrow> action list) \<Rightarrow> board \<Rightarrow> error + action option" where
  "minimax iter board =
     (if terminal board then Inr None
      else
        (case player board of
           MarkX \<Rightarrow>
             (case fold (\<lambda>action acc.
                           case acc of
                             Inl e \<Rightarrow> Inl e
                           | Inr (optimal_move, v) \<Rightarrow>
                               (case result board action of
                                  Inl e \<Rightarrow> Inl e
                                | Inr b' \<Rightarrow>
                                    (case min_value iter b' of
                                       Inl e \<Rightarrow> Inl e
                                     | Inr max_v \<Rightarrow>
                                         if score_less v max_v then Inr (Some action, max_v)
                                         else Inr (optimal_move, v))))
                        (iter (actions board)) (Inr (None, NegInf)) of
                Inl e \<Rightarrow> Inl e
              | Inr (None, v) \<Rightarrow> Inl UnboundLocalError
              | Inr (Some optimal_move, v) \<Rightarrow> Inr (Some optimal_move))
         | MarkO \<Rightarrow>
             (case fold (\<lambda>action acc.
                           case acc of
                             Inl e \<Rightarrow> Inl e
                           | Inr (optimal_move, v) \<Rightarrow>
                               (case result board action of
                                  Inl e \<Rightarrow> Inl e
                                | Inr b' \<Rightarrow>
                                    (case max_value iter b' of
                                       Inl e \<Rightarrow> Inl e
                                     | Inr min_v \<Rightarrow>
                                         if score_less min_v v then Inr (Some action, min_v)
                                         else Inr (optimal_move, v))))
                        (iter (actions board)) (Inr (None, PosInf)) of
                Inl e \<Rightarrow> Inl e
              | Inr (None, v) \<Rightarrow> Inl UnboundLocalError
              | Inr (Some optimal_move, v) \<Rightarrow> Inr (Some optimal_move))))"

text \<open>
  Self-play: until the board is terminal, the side to move applies the action that
  \<^verbatim>\<open>minimax\<close> returns. (Passing the \<open>None\<close> of a terminal board to \<^verbatim>\<open>result\<close> would
  be a TypeError.)
\<close>

function play :: "(action set \<Rightarrow> action list) \<Rightarrow> board \<Rightarrow> error + board" where
  "play iter board =
     (if terminal board then Inr board
      else
        (case minimax iter board of
           Inl e \<Rightarrow> Inl e
         | Inr None \<Rightarrow> Inl TypeError
         | Inr (Some action) \<Rightarrow>
             (case result board action of
                Inl e \<Rightarrow> Inl e
              | Inr b' \<Rightarrow> play iter b')))"
  by pat_completeness auto
termination
  by (relation "measure (\<lambda>(iter, b). empties b)") (auto dest: result_empties)

text \<open>
  A search that stops at the first success, used to bound the value of a board from
  one side: \<open>safe n me board\<close> holds when \<open>me\<close> can keep the final utility from
  being a loss for \<open>me\<close>, within \<open>n\<close> plies. It tries the centre first, then the
  corners, then the edges; \<^verbatim>\<open>result\<close> refuses the occupied ones.
\<close>

definition pref_moves :: "action list" where
  "pref_moves = [(1, 1), (0, 0), (0, 2), (2, 0), (2, 2), (0, 1), (1, 0), (1, 2), (2, 1)]"

fun any_child :: "(board \<Rightarrow> bool) \<Rightarrow> board \<Rightarrow> action list \<Rightarrow> bool" where
  "any_child P board [] = False"
| "any_child P board (a # as) =
     (case result board a of
        Inl e \<Rightarrow> any_child P board as
      | Inr b' \<Rightarrow> if P b' then True else any_child P board as)"

fun all_child :: "(board \<Rightarrow> bool) \<Rightarrow> board \<Rightarrow> action list \<Rightarrow> bool" where
  "all_child P board [] = True"
| "all_child P board (a # as) =
     (case result board a of
        Inl e \<Rightarrow> all_child P board as
      | Inr b' \<Rightarrow> if P b' then all_child P board as else False)"

primrec safe :: "nat \<Rightarrow> mark \<Rightarrow> board \<Rightarrow> bool" where
  "safe 0 me board = False"
| "safe (Suc n) me board =
     (if terminal board then (if me = MarkX then 0 \<le> utility board else utility board \<le> 0)
      else if player board = me then any_child (safe n me) board pref_moves
      else all_child (safe n me) board pref_moves)"

subsection \<open>Facts about boards\<close>

lemma upt3: "[0..<3] = [0, Suc 0, 2]"
  by (simp add: upt_rec numeral_3_eq_3 numeral_2_eq_2)

lemma cells_eq:
  "cells = [(0, 0), (0, Suc 0), (0, 2), (Suc 0, 0), (Suc 0, Suc 0), (Suc 0, 2),
            (2, 0), (2, Suc 0), (2, 2)]"
  by (simp add: cells_def upt3)

lemma set_cells: "(r, c) \<in> set cells \<longleftrightarrow> r < 3 \<and> c < 3"
  unfolding cells_def by (auto simp: image_iff)

lemma nth3:
  "[x, y, z] ! 0 = x" "[x, y, z] ! Suc 0 = y" "[x, y, z] ! 1 = y" "[x, y, z] ! 2 = z"
  by (simp_all add: numeral_2_eq_2)

lemma length3: "length xs = 3 \<longleftrightarrow> (\<exists>x y z. xs = [x, y, z])"
  by (auto simp: numeral_3_eq_3 length_Suc_conv)

lemma wf_board_cases:
  assumes "wf_board board"
  obtains a b c d e f g h i where "board = [[a, b, c], [d, e, f], [g, h, i]]"
proof -
  from assms obtain r0 r1 r2 where rows: "board = [r0, r1, r2]"
    by (auto simp: wf_board_def length3)
  with assms have "length r0 = 3" "length r1 = 3" "length r2 = 3"
    by (simp_all add: wf_board_def)
  then obtain a b c d e f g h i where "r0 = [a, b, c]" "r1 = [d, e, f]" "r2 = [g, h, i]"
    unfolding length3 by blast
  with rows that show thesis by blast
qed

lemma wf_board_literal [simp]: "wf_board [[a, b, c], [d, e, f], [g, h, i]]"
  by (simp add: wf_board_def)

lemma wf_initial_state: "wf_board initial_state"
  by (simp add: initial_state_def)

text \<open>The loop of \<^verbatim>\<open>player\<close> counts the marks of the grid.\<close>

lemma count_step:
  "fold (\<lambda>x (count_x, count_o).
           if x = Some MarkX then (count_x + 1, count_o)
           else if x = Some MarkO then (count_x, count_o + 1)
           else (count_x, count_o)) xs (n, m)
   = (n + count_list xs (Some MarkX), m + count_list xs (Some MarkO))"
  by (induction xs arbitrary: n m) auto

lemma mark_counts_fold:
  "mark_counts board =
     fold (\<lambda>x (count_x, count_o).
             if x = Some MarkX then (count_x + 1, count_o)
             else if x = Some MarkO then (count_x, count_o + 1)
             else (count_x, count_o))
          (map (\<lambda>(r, k). board ! r ! k) cells) (0, 0)"
  unfolding mark_counts_def fold_map
  by (rule arg_cong [where f = "\<lambda>f. fold f cells (0, 0)"]) auto

lemma cells_of_board:
  "wf_board board \<Longrightarrow> map (\<lambda>(r, k). board ! r ! k) cells = concat board"
  by (erule wf_board_cases) (simp add: cells_eq nth3)

lemma mark_counts_wf:
  "wf_board board \<Longrightarrow>
   mark_counts board
     = (count_list (concat board) (Some MarkX), count_list (concat board) (Some MarkO))"
  unfolding mark_counts_fold count_step by (simp add: cells_of_board)

lemma player_wf:
  "wf_board board \<Longrightarrow>
   player board = (if count_list (concat board) (Some MarkX)
                      = count_list (concat board) (Some MarkO) then MarkX else MarkO)"
  by (simp add: player_def mark_counts_wf)

lemma actions_iff:
  "a \<in> actions board \<longleftrightarrow>
     (\<exists>r c. r < 3 \<and> c < 3 \<and> a = (int r, int c) \<and> board ! r ! c = None)"
  unfolding actions_def by (auto simp: set_cells)

lemma subscript_nat: "r < length xs \<Longrightarrow> subscript xs (int r) = Inr r"
  by (simp add: subscript_def Let_def)

lemma result_cases:
  assumes "result board action = Inr b'"
  obtains i j where "subscript board (fst action) = Inr i"
    and "subscript (board ! i) (snd action) = Inr j"
    and "i < length board" and "j < length (board ! i)" and "board ! i ! j = None"
    and "b' = board[i := (board ! i)[j := Some (player board)]]"
proof -
  from assms obtain i j where
    i: "subscript board (fst action) = Inr i" and
    j: "subscript (board ! i) (snd action) = Inr j" and
    e: "board ! i ! j = None" and
    b': "b' = board[i := (board ! i)[j := Some (player board)]]"
    by (auto simp: result_def split: sum.splits if_splits)
  from that [OF i j subscript_Inr [OF i] subscript_Inr [OF j] e b'] show thesis .
qed

lemma result_nat:
  assumes "wf_board board" and "r < 3" and "c < 3"
  shows "result board (int r, int c) =
           (if board ! r ! c \<noteq> None then Inl IllegalAction
            else Inr (board[r := (board ! r)[c := Some (player board)]]))"
proof -
  from assms(1,2) have r: "r < length board" by (simp add: wf_board_def)
  with assms(1) have "length (board ! r) = 3"
    by (simp add: wf_board_def list_all_length)
  with assms(3) have c: "c < length (board ! r)" by simp
  show ?thesis
    by (simp add: result_def subscript_nat [OF r] subscript_nat [OF c])
qed

lemma wf_board_update:
  "wf_board board \<Longrightarrow> wf_board (board[i := (board ! i)[j := y]])"
  by (cases "i < length board")
     (auto simp: wf_board_def list_all_length nth_list_update)

lemma result_wf: "wf_board board \<Longrightarrow> result board action = Inr b' \<Longrightarrow> wf_board b'"
  by (erule result_cases) (simp add: wf_board_update)

lemma result_count:
  assumes "result board action = Inr b'"
  shows "count_list (concat b') (Some m)
         = count_list (concat board) (Some m) + (if player board = m then 1 else 0)"
proof -
  from assms obtain i j where i: "i < length board" and j: "j < length (board ! i)"
    and e: "board ! i ! j = None"
    and b': "b' = board[i := (board ! i)[j := Some (player board)]]"
    by (rule result_cases)
  from count_concat_update [OF i j, of "Some (player board)" "Some m"] e
  show ?thesis unfolding b' by simp
qed

subsection \<open>The functions on a written-out grid\<close>

definition line3 :: "mark \<Rightarrow> cell \<Rightarrow> cell \<Rightarrow> cell \<Rightarrow> bool" where
  "line3 p x y z \<longleftrightarrow> x = Some p \<and> y = Some p \<and> z = Some p"

lemma has_line_lit:
  "has_line p [[a, b, c], [d, e, f], [g, h, i]] \<longleftrightarrow>
     line3 p a b c \<or> line3 p d e f \<or> line3 p g h i \<or>
     line3 p a d g \<or> line3 p b e h \<or> line3 p c f i \<or>
     line3 p a e i \<or> line3 p c e g"
  unfolding has_line_def line3_def upt3 by (simp add: nth3)

lemma winner_lit:
  "winner [[a, b, c], [d, e, f], [g, h, i]] =
     (if line3 MarkO a b c \<or> line3 MarkO d e f \<or> line3 MarkO g h i \<or>
         line3 MarkO a d g \<or> line3 MarkO b e h \<or> line3 MarkO c f i \<or>
         line3 MarkO a e i \<or> line3 MarkO c e g then Some MarkO
      else if line3 MarkX a b c \<or> line3 MarkX d e f \<or> line3 MarkX g h i \<or>
         line3 MarkX a d g \<or> line3 MarkX b e h \<or> line3 MarkX c f i \<or>
         line3 MarkX a e i \<or> line3 MarkX c e g then Some MarkX
      else None)"
  unfolding winner_def has_line_lit by simp

lemma terminal_lit:
  "terminal [[a, b, c], [d, e, f], [g, h, i]] \<longleftrightarrow>
     (if winner [[a, b, c], [d, e, f], [g, h, i]] \<noteq> None then True
      else a \<noteq> None \<and> b \<noteq> None \<and> c \<noteq> None \<and> d \<noteq> None \<and> e \<noteq> None
         \<and> f \<noteq> None \<and> g \<noteq> None \<and> h \<noteq> None \<and> i \<noteq> None)"
  unfolding terminal_def cells_eq by (simp add: nth3)

lemma player_lit:
  "player [[a, b, c], [d, e, f], [g, h, i]] =
     (if count_list [a, b, c, d, e, f, g, h, i] (Some MarkX)
         = count_list [a, b, c, d, e, f, g, h, i] (Some MarkO)
      then MarkX else MarkO)"
  by (simp add: player_wf)

lemma subscript3:
  "subscript [x, y, z] 0 = Inr 0" "subscript [x, y, z] 1 = Inr (Suc 0)"
  "subscript [x, y, z] 2 = Inr 2"
  by (simp_all add: subscript_def Let_def)

lemma result_lit:
  "result [[a, b, c], [d, e, f], [g, h, i]] (0, 0) =
     (if a \<noteq> None then Inl IllegalAction
      else Inr [[Some (player [[a, b, c], [d, e, f], [g, h, i]]), b, c], [d, e, f], [g, h, i]])"
  "result [[a, b, c], [d, e, f], [g, h, i]] (0, 1) =
     (if b \<noteq> None then Inl IllegalAction
      else Inr [[a, Some (player [[a, b, c], [d, e, f], [g, h, i]]), c], [d, e, f], [g, h, i]])"
  "result [[a, b, c], [d, e, f], [g, h, i]] (0, 2) =
     (if c \<noteq> None then Inl IllegalAction
      else Inr [[a, b, Some (player [[a, b, c], [d, e, f], [g, h, i]])], [d, e, f], [g, h, i]])"
  "result [[a, b, c], [d, e, f], [g, h, i]] (1, 0) =
     (if d \<noteq> None then Inl IllegalAction
      else Inr [[a, b, c], [Some (player [[a, b, c], [d, e, f], [g, h, i]]), e, f], [g, h, i]])"
  "result [[a, b, c], [d, e, f], [g, h, i]] (1, 1) =
     (if e \<noteq> None then Inl IllegalAction
      else Inr [[a, b, c], [d, Some (player [[a, b, c], [d, e, f], [g, h, i]]), f], [g, h, i]])"
  "result [[a, b, c], [d, e, f], [g, h, i]] (1, 2) =
     (if f \<noteq> None then Inl IllegalAction
      else Inr [[a, b, c], [d, e, Some (player [[a, b, c], [d, e, f], [g, h, i]])], [g, h, i]])"
  "result [[a, b, c], [d, e, f], [g, h, i]] (2, 0) =
     (if g \<noteq> None then Inl IllegalAction
      else Inr [[a, b, c], [d, e, f], [Some (player [[a, b, c], [d, e, f], [g, h, i]]), h, i]])"
  "result [[a, b, c], [d, e, f], [g, h, i]] (2, 1) =
     (if h \<noteq> None then Inl IllegalAction
      else Inr [[a, b, c], [d, e, f], [g, Some (player [[a, b, c], [d, e, f], [g, h, i]]), i]])"
  "result [[a, b, c], [d, e, f], [g, h, i]] (2, 2) =
     (if i \<noteq> None then Inl IllegalAction
      else Inr [[a, b, c], [d, e, f], [g, h, Some (player [[a, b, c], [d, e, f], [g, h, i]])]])"
  by (simp_all add: result_def subscript3 nth3 numeral_2_eq_2)

lemma safe_numeral:
  "safe (numeral k) me board =
     (if terminal board then (if me = MarkX then 0 \<le> utility board else utility board \<le> 0)
      else if player board = me then any_child (safe (pred_numeral k) me) board pref_moves
      else all_child (safe (pred_numeral k) me) board pref_moves)"
  by (simp add: numeral_eq_Suc)

lemmas grid_eval = safe_numeral result_lit terminal_lit winner_lit line3_def player_lit
  utility_def pref_moves_def initial_state_def

subsection \<open>Turn alternation\<close>

text \<open>The boards that a game can reach: the initial one, and every successful \<^verbatim>\<open>result\<close>.\<close>

inductive reachable :: "board \<Rightarrow> bool" where
  init: "reachable initial_state"
| step: "reachable board \<Longrightarrow> result board action = Inr b' \<Longrightarrow> reachable b'"

definition turn_ok :: "board \<Rightarrow> bool" where
  "turn_ok board \<longleftrightarrow>
     count_list (concat board) (Some MarkX) = count_list (concat board) (Some MarkO)
     \<or> count_list (concat board) (Some MarkX) = Suc (count_list (concat board) (Some MarkO))"

lemma turn_ok_initial: "turn_ok initial_state"
  by (simp add: turn_ok_def initial_state_def)

lemma result_turn_ok:
  assumes "wf_board board" and "turn_ok board" and "result board action = Inr b'"
  shows "turn_ok b'"
  using assms(2) result_count [OF assms(3), of MarkX] result_count [OF assms(3), of MarkO]
  by (auto simp: turn_ok_def player_wf [OF assms(1)] split: if_splits)

lemma result_player:
  assumes "wf_board board" and "turn_ok board" and "result board action = Inr b'"
  shows "player b' \<noteq> player board"
  using assms(2) result_count [OF assms(3), of MarkX] result_count [OF assms(3), of MarkO]
  by (auto simp: turn_ok_def player_wf [OF assms(1)] player_wf [OF result_wf [OF assms(1,3)]]
           split: if_splits)

lemma reachable_wf: "reachable board \<Longrightarrow> wf_board board"
  by (induction rule: reachable.induct) (auto simp: wf_initial_state intro: result_wf)

lemma reachable_turn_ok: "reachable board \<Longrightarrow> turn_ok board"
  by (induction rule: reachable.induct)
     (auto simp: turn_ok_initial intro: result_turn_ok reachable_wf)

subsection \<open>The loops of the search\<close>

lemma score_max_Fin [simp]:
  "score_max (Fin x) (Fin y) = Fin (max x y)" "score_max NegInf (Fin y) = Fin y"
  by (simp_all add: score_max_def max_def)

lemma score_min_Fin [simp]:
  "score_min (Fin x) (Fin y) = Fin (min x y)" "score_min PosInf (Fin y) = Fin y"
  by (simp_all add: score_min_def min_def)

lemma fold_score_max:
  "\<exists>V. fold (\<lambda>a v. score_max v (Fin (g a))) xs (Fin v0) = Fin V \<and> v0 \<le> V
       \<and> (\<forall>a\<in>set xs. g a \<le> V) \<and> (V = v0 \<or> (\<exists>a\<in>set xs. g a = V))"
proof (induction xs arbitrary: v0)
  case Nil
  then show ?case by simp
next
  case (Cons x xs)
  from Cons.IH [of "max v0 (g x)"] obtain V where
    "fold (\<lambda>a v. score_max v (Fin (g a))) xs (Fin (max v0 (g x))) = Fin V"
    "max v0 (g x) \<le> V" "\<forall>a\<in>set xs. g a \<le> V"
    "V = max v0 (g x) \<or> (\<exists>a\<in>set xs. g a = V)"
    by blast
  then show ?case by (auto simp: max_def split: if_splits)
qed

lemma fold_score_max_start:
  assumes "xs \<noteq> []"
  shows "\<exists>V. fold (\<lambda>a v. score_max v (Fin (g a))) xs NegInf = Fin V
       \<and> (\<forall>a\<in>set xs. g a \<le> V) \<and> (\<exists>a\<in>set xs. g a = V)"
proof -
  from assms obtain x ys where xs: "xs = x # ys" by (cases xs) auto
  from fold_score_max [of g ys "g x"] show ?thesis unfolding xs by auto
qed

lemma fold_score_min:
  "\<exists>V. fold (\<lambda>a v. score_min v (Fin (g a))) xs (Fin v0) = Fin V \<and> V \<le> v0
       \<and> (\<forall>a\<in>set xs. V \<le> g a) \<and> (V = v0 \<or> (\<exists>a\<in>set xs. g a = V))"
proof (induction xs arbitrary: v0)
  case Nil
  then show ?case by simp
next
  case (Cons x xs)
  from Cons.IH [of "min v0 (g x)"] obtain V where
    "fold (\<lambda>a v. score_min v (Fin (g a))) xs (Fin (min v0 (g x))) = Fin V"
    "V \<le> min v0 (g x)" "\<forall>a\<in>set xs. V \<le> g a"
    "V = min v0 (g x) \<or> (\<exists>a\<in>set xs. g a = V)"
    by blast
  then show ?case by (auto simp: min_def split: if_splits)
qed

lemma fold_score_min_start:
  assumes "xs \<noteq> []"
  shows "\<exists>V. fold (\<lambda>a v. score_min v (Fin (g a))) xs PosInf = Fin V
       \<and> (\<forall>a\<in>set xs. V \<le> g a) \<and> (\<exists>a\<in>set xs. g a = V)"
proof -
  from assms obtain x ys where xs: "xs = x # ys" by (cases xs) auto
  from fold_score_min [of g ys "g x"] show ?thesis unfolding xs by auto
qed

text \<open>The loop of \<^verbatim>\<open>minimax\<close> keeps the first action of the best value.\<close>

lemma fold_pick_max:
  assumes "g a0 = v0"
  shows "\<exists>a. fold (\<lambda>a (mo, v). if score_less v (Fin (g a)) then (Some a, Fin (g a)) else (mo, v))
              xs (Some a0, Fin v0) = (Some a, Fin (g a))
       \<and> a \<in> insert a0 (set xs) \<and> v0 \<le> g a \<and> (\<forall>a'\<in>set xs. g a' \<le> g a)"
  using assms
proof (induction xs arbitrary: a0 v0)
  case Nil
  then show ?case by simp
next
  case (Cons x xs)
  show ?case
  proof (cases "v0 < g x")
    case True
    from Cons.IH [of x "g x"] True Cons.prems show ?thesis by auto
  next
    case False
    from Cons.IH [of a0 v0] False Cons.prems show ?thesis by auto
  qed
qed

lemma fold_pick_max_start:
  assumes "xs \<noteq> []"
  shows "\<exists>a. fold (\<lambda>a (mo, v). if score_less v (Fin (g a)) then (Some a, Fin (g a)) else (mo, v))
              xs (None, NegInf) = (Some a, Fin (g a))
       \<and> a \<in> set xs \<and> (\<forall>a'\<in>set xs. g a' \<le> g a)"
proof -
  from assms obtain x ys where xs: "xs = x # ys" by (cases xs) auto
  from fold_pick_max [of g x "g x" ys] show ?thesis unfolding xs by auto
qed

lemma fold_pick_min:
  assumes "g a0 = v0"
  shows "\<exists>a. fold (\<lambda>a (mo, v). if score_less (Fin (g a)) v then (Some a, Fin (g a)) else (mo, v))
              xs (Some a0, Fin v0) = (Some a, Fin (g a))
       \<and> a \<in> insert a0 (set xs) \<and> g a \<le> v0 \<and> (\<forall>a'\<in>set xs. g a \<le> g a')"
  using assms
proof (induction xs arbitrary: a0 v0)
  case Nil
  then show ?case by simp
next
  case (Cons x xs)
  show ?case
  proof (cases "g x < v0")
    case True
    from Cons.IH [of x "g x"] True Cons.prems show ?thesis by auto
  next
    case False
    from Cons.IH [of a0 v0] False Cons.prems show ?thesis by auto
  qed
qed

lemma fold_pick_min_start:
  assumes "xs \<noteq> []"
  shows "\<exists>a. fold (\<lambda>a (mo, v). if score_less (Fin (g a)) v then (Some a, Fin (g a)) else (mo, v))
              xs (None, PosInf) = (Some a, Fin (g a))
       \<and> a \<in> set xs \<and> (\<forall>a'\<in>set xs. g a \<le> g a')"
proof -
  from assms obtain x ys where xs: "xs = x # ys" by (cases xs) auto
  from fold_pick_min [of g x "g x" ys] show ?thesis unfolding xs by auto
qed

text \<open>
  When every action of the list is legal and the board behind it has a finite value,
  the loops raise nothing and compute what the pure folds above compute.
\<close>

lemma fold_results:
  assumes "\<forall>a\<in>set xs. \<exists>b'. result board a = Inr b' \<and> ev b' = Inr (Fin (g a))"
  shows "fold (\<lambda>action acc.
                 case acc of
                   Inl e \<Rightarrow> Inl e
                 | Inr v \<Rightarrow>
                     (case result board action of
                        Inl e \<Rightarrow> Inl e
                      | Inr b' \<Rightarrow>
                          (case ev b' of
                             Inl e \<Rightarrow> Inl e
                           | Inr w \<Rightarrow> Inr (comb v w))))
              xs (Inr v)
         = Inr (fold (\<lambda>a v. comb v (Fin (g a))) xs v)"
  using assms
proof (induction xs arbitrary: v)
  case Nil
  then show ?case by simp
next
  case (Cons x xs)
  from Cons.prems obtain b' where "result board x = Inr b'" "ev b' = Inr (Fin (g x))"
    by auto
  moreover from Cons.prems
  have "\<forall>a\<in>set xs. \<exists>b'. result board a = Inr b' \<and> ev b' = Inr (Fin (g a))" by simp
  ultimately show ?case using Cons.IH by simp
qed

lemma fold_results_pick:
  assumes "\<forall>a\<in>set xs. \<exists>b'. result board a = Inr b' \<and> ev b' = Inr (Fin (g a))"
  shows "fold (\<lambda>action acc.
                 case acc of
                   Inl e \<Rightarrow> Inl e
                 | Inr (optimal_move, v) \<Rightarrow>
                     (case result board action of
                        Inl e \<Rightarrow> Inl e
                      | Inr b' \<Rightarrow>
                          (case ev b' of
                             Inl e \<Rightarrow> Inl e
                           | Inr w \<Rightarrow>
                               if better v w then Inr (Some action, w)
                               else Inr (optimal_move, v))))
              xs (Inr (mo, v))
         = Inr (fold (\<lambda>a (mo, v). if better v (Fin (g a)) then (Some a, Fin (g a)) else (mo, v))
                  xs (mo, v))"
  using assms
proof (induction xs arbitrary: mo v)
  case Nil
  then show ?case by simp
next
  case (Cons x xs)
  from Cons.prems obtain b' where "result board x = Inr b'" "ev b' = Inr (Fin (g x))"
    by auto
  moreover from Cons.prems
  have "\<forall>a\<in>set xs. \<exists>b'. result board a = Inr b' \<and> ev b' = Inr (Fin (g a))" by simp
  ultimately show ?case using Cons.IH by simp
qed

subsection \<open>The value of a board\<close>

declare max_value.simps [simp del] min_value.simps [simp del] play.simps [simp del]

text \<open>
  What is asked of the iteration order of a set: it lists the elements of the set.
\<close>

definition enumerates :: "(action set \<Rightarrow> action list) \<Rightarrow> bool" where
  "enumerates iter \<longleftrightarrow> (\<forall>board. set (iter (actions board)) = actions board)"

text \<open>The value, under the evaluation \<open>ev\<close>, of the board that an action leads to.\<close>

definition child_value :: "(board \<Rightarrow> error + score) \<Rightarrow> board \<Rightarrow> action \<Rightarrow> int" where
  "child_value ev board a =
     (case result board a of
        Inl e \<Rightarrow> 0
      | Inr b' \<Rightarrow> (case ev b' of Inr (Fin w) \<Rightarrow> w | _ \<Rightarrow> 0))"

lemma child_valueI:
  "result board a = Inr b' \<Longrightarrow> ev b' = Inr (Fin w) \<Longrightarrow> child_value ev board a = w"
  by (simp add: child_value_def)

lemma children_values:
  assumes "\<forall>a\<in>set xs. \<exists>b' w. result board a = Inr b' \<and> ev b' = Inr (Fin w)"
  shows "\<forall>a\<in>set xs. \<exists>b'. result board a = Inr b'
           \<and> ev b' = Inr (Fin (child_value ev board a))"
  using assms by (fastforce simp: child_value_def)

lemma max_value_level:
  assumes "\<not> terminal board" and "iter (actions board) \<noteq> []"
    and "\<forall>a\<in>set (iter (actions board)).
           \<exists>b' w. result board a = Inr b' \<and> min_value iter b' = Inr (Fin w)"
  shows "\<exists>V. max_value iter board = Inr (Fin V)
       \<and> (\<forall>a\<in>set (iter (actions board)). child_value (min_value iter) board a \<le> V)
       \<and> (\<exists>a\<in>set (iter (actions board)). child_value (min_value iter) board a = V)"
proof -
  have "max_value iter board
        = Inr (fold (\<lambda>a v. score_max v (Fin (child_value (min_value iter) board a)))
                 (iter (actions board)) NegInf)"
    using assms(1)
    by (simp add: max_value.simps [of iter board] fold_results [OF children_values [OF assms(3)]])
  with fold_score_max_start [OF assms(2), of "child_value (min_value iter) board"]
  show ?thesis by auto
qed

lemma min_value_level:
  assumes "\<not> terminal board" and "iter (actions board) \<noteq> []"
    and "\<forall>a\<in>set (iter (actions board)).
           \<exists>b' w. result board a = Inr b' \<and> max_value iter b' = Inr (Fin w)"
  shows "\<exists>V. min_value iter board = Inr (Fin V)
       \<and> (\<forall>a\<in>set (iter (actions board)). V \<le> child_value (max_value iter) board a)
       \<and> (\<exists>a\<in>set (iter (actions board)). child_value (max_value iter) board a = V)"
proof -
  have "min_value iter board
        = Inr (fold (\<lambda>a v. score_min v (Fin (child_value (max_value iter) board a)))
                 (iter (actions board)) PosInf)"
    using assms(1)
    by (simp add: min_value.simps [of iter board] fold_results [OF children_values [OF assms(3)]])
  with fold_score_min_start [OF assms(2), of "child_value (max_value iter) board"]
  show ?thesis by auto
qed

lemma minimax_level_X:
  assumes "\<not> terminal board" and "player board = MarkX" and "iter (actions board) \<noteq> []"
    and "\<forall>a\<in>set (iter (actions board)).
           \<exists>b' w. result board a = Inr b' \<and> min_value iter b' = Inr (Fin w)"
  shows "\<exists>a. minimax iter board = Inr (Some a) \<and> a \<in> set (iter (actions board))
       \<and> (\<forall>a'\<in>set (iter (actions board)).
             child_value (min_value iter) board a' \<le> child_value (min_value iter) board a)"
proof -
  from fold_pick_max_start [OF assms(3), of "child_value (min_value iter) board"]
  obtain a where
    "fold (\<lambda>a (mo, v). if score_less v (Fin (child_value (min_value iter) board a))
                        then (Some a, Fin (child_value (min_value iter) board a)) else (mo, v))
       (iter (actions board)) (None, NegInf)
     = (Some a, Fin (child_value (min_value iter) board a))"
    and a: "a \<in> set (iter (actions board))"
      "\<forall>a'\<in>set (iter (actions board)).
         child_value (min_value iter) board a' \<le> child_value (min_value iter) board a"
    by blast
  then have "minimax iter board = Inr (Some a)"
    using assms(1,2)
    by (simp add: minimax_def fold_results_pick [OF children_values [OF assms(4)]])
  with a show ?thesis by blast
qed

lemma minimax_level_O:
  assumes "\<not> terminal board" and "player board = MarkO" and "iter (actions board) \<noteq> []"
    and "\<forall>a\<in>set (iter (actions board)).
           \<exists>b' w. result board a = Inr b' \<and> max_value iter b' = Inr (Fin w)"
  shows "\<exists>a. minimax iter board = Inr (Some a) \<and> a \<in> set (iter (actions board))
       \<and> (\<forall>a'\<in>set (iter (actions board)).
             child_value (max_value iter) board a \<le> child_value (max_value iter) board a')"
proof -
  from fold_pick_min_start [OF assms(3), of "child_value (max_value iter) board"]
  obtain a where
    "fold (\<lambda>a (mo, v). if score_less (Fin (child_value (max_value iter) board a)) v
                        then (Some a, Fin (child_value (max_value iter) board a)) else (mo, v))
       (iter (actions board)) (None, PosInf)
     = (Some a, Fin (child_value (max_value iter) board a))"
    and a: "a \<in> set (iter (actions board))"
      "\<forall>a'\<in>set (iter (actions board)).
         child_value (max_value iter) board a \<le> child_value (max_value iter) board a'"
    by blast
  then have "minimax iter board = Inr (Some a)"
    using assms(1,2)
    by (simp add: minimax_def fold_results_pick [OF children_values [OF assms(4)]])
  with a show ?thesis by blast
qed

lemma nonterminal_actions:
  assumes "\<not> terminal board"
  shows "actions board \<noteq> {}"
proof -
  from assms obtain r c where "r < 3" "c < 3" "board ! r ! c = None"
    by (auto simp: terminal_def list_ex_iff set_cells)
  then have "(int r, int c) \<in> actions board"
    unfolding actions_iff by blast
  then show ?thesis by blast
qed

lemma action_result:
  assumes "wf_board board" and "a \<in> actions board"
  shows "\<exists>b'. result board a = Inr b'"
  using assms(2) result_nat [OF assms(1)] by (auto simp: actions_iff)

lemma pref_moves_cells: "set pref_moves = (\<lambda>(r, c). (int r, int c)) ` set cells"
  unfolding pref_moves_def cells_eq by auto

lemma actions_pref_moves: "a \<in> actions board \<Longrightarrow> a \<in> set pref_moves"
  unfolding pref_moves_cells by (auto simp: actions_iff set_cells)

lemma result_in_actions:
  assumes "wf_board board" and "a \<in> set pref_moves" and "result board a = Inr b'"
  shows "a \<in> actions board"
proof -
  from assms(2) obtain r c where rc: "r < 3" "c < 3" "a = (int r, int c)"
    unfolding pref_moves_cells by (auto simp: set_cells)
  with assms(3) result_nat [OF assms(1) rc(1,2)] have "board ! r ! c = None"
    by (auto split: if_splits)
  with rc show ?thesis by (auto simp: actions_iff)
qed

lemma values_fin:
  assumes "enumerates iter" and "wf_board board"
  shows "(\<exists>v. max_value iter board = Inr (Fin v)) \<and> (\<exists>v. min_value iter board = Inr (Fin v))"
  using assms(2)
proof (induction "empties board" arbitrary: board rule: less_induct)
  case less
  show ?case
  proof (cases "terminal board")
    case True
    then show ?thesis
      by (simp add: max_value.simps [of iter board] min_value.simps [of iter board])
  next
    case False
    have elems: "set (iter (actions board)) = actions board"
      using assms(1) by (simp add: enumerates_def)
    with nonterminal_actions [OF False] have ne: "iter (actions board) \<noteq> []" by auto
    have ch: "\<exists>b'. result board a = Inr b' \<and> (\<exists>w. max_value iter b' = Inr (Fin w))
                \<and> (\<exists>w. min_value iter b' = Inr (Fin w))"
      if "a \<in> set (iter (actions board))" for a
    proof -
      from that elems have "a \<in> actions board" by simp
      from action_result [OF less.prems this] obtain b' where r: "result board a = Inr b'"
        by blast
      from less.hyps [OF result_empties [OF r] result_wf [OF less.prems r]] r
      show ?thesis by blast
    qed
    have "\<exists>V. max_value iter board = Inr (Fin V)"
      using max_value_level [where iter = iter and board = board, OF False ne] ch by blast
    moreover have "\<exists>V. min_value iter board = Inr (Fin V)"
      using min_value_level [where iter = iter and board = board, OF False ne] ch by blast
    ultimately show ?thesis by blast
  qed
qed

lemma children_fin:
  assumes "enumerates iter" and "wf_board board" and "a \<in> actions board"
  shows "\<exists>b'. result board a = Inr b' \<and> wf_board b'
           \<and> max_value iter b' = Inr (Fin (child_value (max_value iter) board a))
           \<and> min_value iter b' = Inr (Fin (child_value (min_value iter) board a))"
proof -
  from action_result [OF assms(2,3)] obtain b' where r: "result board a = Inr b'" by blast
  from values_fin [OF assms(1) result_wf [OF assms(2) r]] r result_wf [OF assms(2) r]
  show ?thesis by (auto simp: child_value_def)
qed

lemma max_value_char:
  assumes "enumerates iter" and "wf_board board" and "\<not> terminal board"
  shows "\<exists>V. max_value iter board = Inr (Fin V)
       \<and> (\<forall>a\<in>actions board. child_value (min_value iter) board a \<le> V)
       \<and> (\<exists>a\<in>actions board. child_value (min_value iter) board a = V)"
proof -
  have elems: "set (iter (actions board)) = actions board"
    using assms(1) by (simp add: enumerates_def)
  with nonterminal_actions [OF assms(3)] have ne: "iter (actions board) \<noteq> []" by auto
  from max_value_level [where iter = iter and board = board, OF assms(3) ne] children_fin [OF assms(1,2)] show ?thesis
    unfolding elems by blast
qed

lemma min_value_char:
  assumes "enumerates iter" and "wf_board board" and "\<not> terminal board"
  shows "\<exists>V. min_value iter board = Inr (Fin V)
       \<and> (\<forall>a\<in>actions board. V \<le> child_value (max_value iter) board a)
       \<and> (\<exists>a\<in>actions board. child_value (max_value iter) board a = V)"
proof -
  have elems: "set (iter (actions board)) = actions board"
    using assms(1) by (simp add: enumerates_def)
  with nonterminal_actions [OF assms(3)] have ne: "iter (actions board) \<noteq> []" by auto
  from min_value_level [where iter = iter and board = board, OF assms(3) ne] children_fin [OF assms(1,2)] show ?thesis
    unfolding elems by blast
qed

lemma minimax_X:
  assumes "enumerates iter" and "wf_board board" and "\<not> terminal board"
    and "player board = MarkX"
  shows "\<exists>a. minimax iter board = Inr (Some a) \<and> a \<in> actions board
       \<and> max_value iter board = Inr (Fin (child_value (min_value iter) board a))"
proof -
  have elems: "set (iter (actions board)) = actions board"
    using assms(1) by (simp add: enumerates_def)
  with nonterminal_actions [OF assms(3)] have ne: "iter (actions board) \<noteq> []" by auto
  from minimax_level_X [where iter = iter and board = board, OF assms(3,4) ne] children_fin [OF assms(1,2)]
  obtain a where a: "minimax iter board = Inr (Some a)" "a \<in> actions board"
    "\<forall>a'\<in>actions board.
       child_value (min_value iter) board a' \<le> child_value (min_value iter) board a"
    unfolding elems by blast
  from max_value_char [OF assms(1,2,3)] obtain V where
    V: "max_value iter board = Inr (Fin V)"
       "\<forall>a\<in>actions board. child_value (min_value iter) board a \<le> V"
       "\<exists>a\<in>actions board. child_value (min_value iter) board a = V"
    by blast
  from a(2,3) V(2,3) have "child_value (min_value iter) board a = V" by force
  with a V(1) show ?thesis by blast
qed

lemma minimax_O:
  assumes "enumerates iter" and "wf_board board" and "\<not> terminal board"
    and "player board = MarkO"
  shows "\<exists>a. minimax iter board = Inr (Some a) \<and> a \<in> actions board
       \<and> min_value iter board = Inr (Fin (child_value (max_value iter) board a))"
proof -
  have elems: "set (iter (actions board)) = actions board"
    using assms(1) by (simp add: enumerates_def)
  with nonterminal_actions [OF assms(3)] have ne: "iter (actions board) \<noteq> []" by auto
  from minimax_level_O [where iter = iter and board = board, OF assms(3,4) ne] children_fin [OF assms(1,2)]
  obtain a where a: "minimax iter board = Inr (Some a)" "a \<in> actions board"
    "\<forall>a'\<in>actions board.
       child_value (max_value iter) board a \<le> child_value (max_value iter) board a'"
    unfolding elems by blast
  from min_value_char [OF assms(1,2,3)] obtain V where
    V: "min_value iter board = Inr (Fin V)"
       "\<forall>a\<in>actions board. V \<le> child_value (max_value iter) board a"
       "\<exists>a\<in>actions board. child_value (max_value iter) board a = V"
    by blast
  from a(2,3) V(2,3) have "child_value (max_value iter) board a = V" by force
  with a V(1) show ?thesis by blast
qed

text \<open>The value of a board for the side to move.\<close>

definition board_value :: "(action set \<Rightarrow> action list) \<Rightarrow> board \<Rightarrow> error + score" where
  "board_value iter board =
     (if player board = MarkX then max_value iter board else min_value iter board)"

lemma board_value_terminal:
  "terminal board \<Longrightarrow> board_value iter board = Inr (Fin (utility board))"
  by (simp add: board_value_def max_value.simps [of iter board] min_value.simps [of iter board])

lemma other_mark: "m \<noteq> MarkX \<longleftrightarrow> m = MarkO" "m \<noteq> MarkO \<longleftrightarrow> m = MarkX"
  by (cases m; simp)+

lemma any_child_sound:
  "any_child P board as \<Longrightarrow> \<exists>a\<in>set as. \<exists>b'. result board a = Inr b' \<and> P b'"
  by (induction as) (auto split: sum.splits if_splits)

lemma all_child_sound:
  "all_child P board as \<Longrightarrow> a \<in> set as \<Longrightarrow> result board a = Inr b' \<Longrightarrow> P b'"
  by (induction as) (auto split: sum.splits if_splits)

text \<open>What the bounded search establishes about the value of a board.\<close>

lemma safe_sound:
  assumes en: "enumerates iter"
  shows "safe n me board \<Longrightarrow> wf_board board \<Longrightarrow> turn_ok board \<Longrightarrow>
         \<exists>v. board_value iter board = Inr (Fin v)
            \<and> (if me = MarkX then 0 \<le> v else v \<le> 0)"
proof (induction n arbitrary: board)
  case 0
  then show ?case by simp
next
  case (Suc n)
  note wf = Suc.prems(2) and turn = Suc.prems(3)
  show ?case
  proof (cases "terminal board")
    case True
    with Suc.prems(1) show ?thesis
      by (simp add: board_value_terminal)
  next
    case nt: False
    have child: "\<exists>v'. board_value iter b' = Inr (Fin v')
                   \<and> (if me = MarkX then 0 \<le> v' else v' \<le> 0)
                   \<and> player b' \<noteq> player board"
      if "result board a = Inr b'" "safe n me b'" for a b'
      using Suc.IH [OF that(2) result_wf [OF wf that(1)] result_turn_ok [OF wf turn that(1)]]
        result_player [OF wf turn that(1)] by blast
    show ?thesis
    proof (cases "player board = me")
      case True
      with Suc.prems(1) nt have "any_child (safe n me) board pref_moves" by simp
      from any_child_sound [OF this] obtain a b' where
        a: "a \<in> set pref_moves" and r: "result board a = Inr b'" and s: "safe n me b'"
        by blast
      from result_in_actions [OF wf a r] have act: "a \<in> actions board" .
      from child [OF r s] obtain v' where
        v': "board_value iter b' = Inr (Fin v')" "if me = MarkX then 0 \<le> v' else v' \<le> 0"
          "player b' \<noteq> player board"
        by blast
      show ?thesis
      proof (cases me)
        case MarkX
        with True v' have "min_value iter b' = Inr (Fin v')" "0 \<le> v'"
          by (simp_all add: board_value_def other_mark)
        with r have "child_value (min_value iter) board a = v'"
          by (simp add: child_valueI)
        with max_value_char [OF en wf nt] act \<open>0 \<le> v'\<close> True MarkX show ?thesis
          by (fastforce simp: board_value_def)
      next
        case MarkO
        with True v' have "max_value iter b' = Inr (Fin v')" "v' \<le> 0"
          by (simp_all add: board_value_def other_mark)
        with r have "child_value (max_value iter) board a = v'"
          by (simp add: child_valueI)
        with min_value_char [OF en wf nt] act \<open>v' \<le> 0\<close> True MarkO show ?thesis
          by (fastforce simp: board_value_def)
      qed
    next
      case False
      with Suc.prems(1) nt have all: "all_child (safe n me) board pref_moves" by simp
      have kids: "\<exists>b' v'. result board a = Inr b' \<and> board_value iter b' = Inr (Fin v')
                   \<and> (if me = MarkX then 0 \<le> v' else v' \<le> 0)
                   \<and> player b' \<noteq> player board"
        if "a \<in> actions board" for a
      proof -
        from action_result [OF wf that] obtain b' where r: "result board a = Inr b'" by blast
        from all_child_sound [OF all actions_pref_moves [OF that] r] have "safe n me b'" .
        from child [OF r this] r show ?thesis by blast
      qed
      show ?thesis
      proof (cases me)
        case MarkX
        with False have pl: "player board = MarkO" by (simp add: other_mark)
        from min_value_char [OF en wf nt] obtain V a where
          V: "min_value iter board = Inr (Fin V)" and a: "a \<in> actions board"
          and cv: "child_value (max_value iter) board a = V"
          by blast
        from kids [OF a] MarkX pl obtain b' v' where
          "result board a = Inr b'" "max_value iter b' = Inr (Fin v')" "0 \<le> v'"
          by (auto simp: board_value_def other_mark)
        with cv have "0 \<le> V" by (simp add: child_valueI)
        with V pl MarkX show ?thesis by (simp add: board_value_def)
      next
        case MarkO
        with False have pl: "player board = MarkX" by (simp add: other_mark)
        from max_value_char [OF en wf nt] obtain V a where
          V: "max_value iter board = Inr (Fin V)" and a: "a \<in> actions board"
          and cv: "child_value (min_value iter) board a = V"
          by blast
        from kids [OF a] MarkO pl obtain b' v' where
          "result board a = Inr b'" "min_value iter b' = Inr (Fin v')" "v' \<le> 0"
          by (auto simp: board_value_def other_mark)
        with cv have "V \<le> 0" by (simp add: child_valueI)
        with V pl MarkO show ?thesis by (simp add: board_value_def)
      qed
    qed
  qed
qed

text \<open>
  From a board of value 0, the play that follows \<^verbatim>\<open>minimax\<close> on both sides stays on
  boards of value 0, and ends on one: a draw.
\<close>

lemma play_value_zero:
  assumes en: "enumerates iter"
  shows "wf_board board \<Longrightarrow> turn_ok board \<Longrightarrow> board_value iter board = Inr (Fin 0) \<Longrightarrow>
         \<exists>b. play iter board = Inr b \<and> terminal b \<and> winner b = None \<and> utility b = 0"
proof (induction "empties board" arbitrary: board rule: less_induct)
  case less
  note wf = less.prems(1) and turn = less.prems(2) and val = less.prems(3)
  show ?case
  proof (cases "terminal board")
    case True
    with val have "utility board = 0" by (simp add: board_value_terminal)
    moreover from this have "winner board = None"
      by (cases "winner board") (auto simp: utility_def other_mark split: if_splits)
    ultimately show ?thesis using True by (simp add: play.simps [of iter board])
  next
    case nt: False
    have "\<exists>a b'. minimax iter board = Inr (Some a) \<and> result board a = Inr b'
            \<and> board_value iter b' = Inr (Fin 0)"
    proof (cases "player board")
      case MarkX
      from minimax_X [OF en wf nt MarkX] obtain a where
        a: "minimax iter board = Inr (Some a)" "a \<in> actions board"
          "max_value iter board = Inr (Fin (child_value (min_value iter) board a))"
        by blast
      from children_fin [OF en wf a(2)] obtain b' where
        b': "result board a = Inr b'"
          "min_value iter b' = Inr (Fin (child_value (min_value iter) board a))"
        by blast
      from result_player [OF wf turn b'(1)] MarkX have "player b' = MarkO"
        by (simp add: other_mark)
      with a(3) b'(2) val MarkX have "board_value iter b' = Inr (Fin 0)"
        by (simp add: board_value_def)
      with a(1) b'(1) show ?thesis by blast
    next
      case MarkO
      from minimax_O [OF en wf nt MarkO] obtain a where
        a: "minimax iter board = Inr (Some a)" "a \<in> actions board"
          "min_value iter board = Inr (Fin (child_value (max_value iter) board a))"
        by blast
      from children_fin [OF en wf a(2)] obtain b' where
        b': "result board a = Inr b'"
          "max_value iter b' = Inr (Fin (child_value (max_value iter) board a))"
        by blast
      from result_player [OF wf turn b'(1)] MarkO have "player b' = MarkX"
        by (simp add: other_mark)
      with a(3) b'(2) val MarkO have "board_value iter b' = Inr (Fin 0)"
        by (simp add: board_value_def)
      with a(1) b'(1) show ?thesis by blast
    qed
    then obtain a b' where
      step: "minimax iter board = Inr (Some a)" "result board a = Inr b'"
        "board_value iter b' = Inr (Fin 0)"
      by blast
    from less.hyps [OF result_empties [OF step(2)] result_wf [OF wf step(2)]
        result_turn_ok [OF wf turn step(2)] step(3)]
    show ?thesis using nt step(1,2) by (simp add: play.simps [of iter board])
  qed
qed

text \<open>
  The empty board has value 0: the first player can avoid losing, and so can the second.
  Both searches are run by rewriting.
\<close>

lemma safe_X_initial: "safe 10 MarkX initial_state"
  by (simp add: grid_eval)

lemma safe_O_initial: "safe 10 MarkO initial_state"
  by (simp add: grid_eval)

lemma initial_value:
  assumes "enumerates iter"
  shows "board_value iter initial_state = Inr (Fin 0)"
  using safe_sound [OF assms safe_X_initial wf_initial_state turn_ok_initial]
    safe_sound [OF assms safe_O_initial wf_initial_state turn_ok_initial]
  by auto

text \<open>
  C1. When both sides, starting from \<^verbatim>\<open>initial_state()\<close>, keep applying the action that
  \<^verbatim>\<open>minimax\<close> returns, the game reaches a terminal board with no winner and utility 0,
  whatever the order in which Python iterates the sets of actions.
\<close>

theorem optimal_play_draw:
  assumes "enumerates iter"
  shows "\<exists>b. play iter initial_state = Inr b \<and> terminal b \<and> winner b = None \<and> utility b = 0"
  using play_value_zero [OF assms wf_initial_state turn_ok_initial initial_value [OF assms]] .

theorem optimal_play_draw_witness:
  "enumerates (\<lambda>S. filter (\<lambda>a. a \<in> S) pref_moves)
   \<and> (\<exists>b. play (\<lambda>S. filter (\<lambda>a. a \<in> S) pref_moves) initial_state = Inr b
          \<and> terminal b \<and> winner b = None \<and> utility b = 0)"
proof -
  have en: "enumerates (\<lambda>S. filter (\<lambda>a. a \<in> S) pref_moves)"
    unfolding enumerates_def using actions_pref_moves by auto
  from en optimal_play_draw [OF en] show ?thesis by blast
qed

text \<open>
  C8. On every board reachable from \<^verbatim>\<open>initial_state()\<close> by successful applications of
  \<^verbatim>\<open>result\<close>, the number of X cells minus the number of O cells is 0 or 1.
\<close>

theorem reachable_mark_difference:
  assumes "reachable board"
  shows "int (count_list (concat board) (Some MarkX))
           - int (count_list (concat board) (Some MarkO)) \<in> {0, 1}"
  using reachable_turn_ok [OF assms] by (auto simp: turn_ok_def)

theorem reachable_mark_difference_witness:
  "reachable [[None, None, None], [None, Some MarkX, None], [None, None, None]]
   \<and> int (count_list (concat [[None, None, None], [None, Some MarkX, None], [None, None, None]])
            (Some MarkX))
       - int (count_list (concat [[None, None, None], [None, Some MarkX, None], [None, None, None]])
            (Some MarkO)) \<in> {0, 1}"
proof -
  have "result initial_state (1, 1)
        = Inr [[None, None, None], [None, Some MarkX, None], [None, None, None]]"
    by (simp add: initial_state_def result_lit player_lit)
  from reachable.step [OF reachable.init this]
  have r: "reachable [[None, None, None], [None, Some MarkX, None], [None, None, None]]" .
  from r reachable_mark_difference [OF r] show ?thesis by blast
qed

subsection \<open>The move in the store\<close>

text \<open>
  A Python board is a list object that holds references to three row objects, and
  \<^verbatim>\<open>result\<close> works on a deep copy. Here the objects live in a store: an address is a
  position in the store, and a new object goes to its end. A row holds its marks by
  value (strings and \<^verbatim>\<open>None\<close> are immutable); a board holds the addresses of its rows.
\<close>

type_synonym addr = nat

datatype obj = Cells "cell list" | Rows "addr list"

type_synonym store = "obj list"

definition row_at :: "store \<Rightarrow> addr \<Rightarrow> cell list option" where
  "row_at s a =
     (if a < length s then (case s ! a of Cells cs \<Rightarrow> Some cs | Rows rs \<Rightarrow> None) else None)"

definition rows_at :: "store \<Rightarrow> addr \<Rightarrow> addr list option" where
  "rows_at s a =
     (if a < length s then (case s ! a of Cells cs \<Rightarrow> None | Rows rs \<Rightarrow> Some rs) else None)"

text \<open>The grid that a reference to a board denotes.\<close>

definition board_at :: "store \<Rightarrow> addr \<Rightarrow> board option" where
  "board_at s a =
     (case rows_at s a of
        None \<Rightarrow> None
      | Some rs \<Rightarrow>
          if list_all (\<lambda>r. row_at s r \<noteq> None) rs then Some (map (\<lambda>r. the (row_at s r)) rs)
          else None)"

text \<open>The rows of the board are three different objects.\<close>

definition separate_rows :: "store \<Rightarrow> addr \<Rightarrow> bool" where
  "separate_rows s a = (case rows_at s a of None \<Rightarrow> False | Some rs \<Rightarrow> distinct rs)"

text \<open>\<^verbatim>\<open>initial_state\<close> builds three rows and the list that holds them.\<close>

definition initial_state_store :: "store \<Rightarrow> store \<times> addr" where
  "initial_state_store s =
     (let a = length s
      in (s @ [Cells [None, None, None], Cells [None, None, None], Cells [None, None, None],
               Rows [a, a + 1, a + 2]],
          a + 3))"

text \<open>The addresses \<open>n, n + 1, \<dots>, n + k - 1\<close>.\<close>

definition addrs :: "nat \<Rightarrow> nat \<Rightarrow> nat list" where
  "addrs n k = [n..<n + k]"

text \<open>
  \<^verbatim>\<open>copy.deepcopy\<close> of a board. The memo maps the objects already copied to their copies,
  so that a row that occurs twice is copied once; the copy of a row is a new list of
  the same marks.
\<close>

fun deepcopy_rows :: "store \<Rightarrow> (addr \<times> addr) list \<Rightarrow> addr list \<Rightarrow> store \<times> addr list" where
  "deepcopy_rows s memo [] = (s, [])"
| "deepcopy_rows s memo (r # rs) =
     (case map_of memo r of
        Some y \<Rightarrow> (let (s', ys) = deepcopy_rows s memo rs in (s', y # ys))
      | None \<Rightarrow>
          (let y = length s;
               (s', ys) = deepcopy_rows (s @ [s ! r]) ((r, y) # memo) rs
           in (s', y # ys)))"

definition deepcopy :: "store \<Rightarrow> addr \<Rightarrow> store \<times> addr" where
  "deepcopy s x =
     (let y = length s;
          (s', ys) = deepcopy_rows (s @ [Rows []]) [(x, y)] (the (rows_at s x))
      in (s'[y := Rows ys], y))"

text \<open>
  \<^verbatim>\<open>result\<close> on references: the test reads the input board, the copy is made, the
  mover's mark is computed from the input board and written into the row of the copy.
\<close>

definition result_store :: "store \<Rightarrow> addr \<Rightarrow> action \<Rightarrow> error + store \<times> addr" where
  "result_store s board action =
     (case board_at s board of
        None \<Rightarrow> Inl TypeError
      | Some grid \<Rightarrow>
          (case subscript grid (fst action) of
             Inl e \<Rightarrow> Inl e
           | Inr i \<Rightarrow>
               (case subscript (grid ! i) (snd action) of
                  Inl e \<Rightarrow> Inl e
                | Inr j \<Rightarrow>
                    if grid ! i ! j \<noteq> None then Inl IllegalAction
                    else
                      let (s', new_board) = deepcopy s board;
                          mover = player (the (board_at s' board));
                          row = the (rows_at s' new_board) ! i
                      in Inr (s'[row := Cells ((the (row_at s' row))[j := Some mover])],
                              new_board))))"

lemma board_at_rows:
  assumes "board_at s a = Some grid"
  obtains rs where "rows_at s a = Some rs" and "a < length s" and "s ! a = Rows rs"
    and "\<forall>r\<in>set rs. r < length s \<and> (\<exists>cs. s ! r = Cells cs)"
    and "grid = map (\<lambda>r. the (row_at s r)) rs"
proof -
  from assms obtain rs where rs: "rows_at s a = Some rs"
    and all: "list_all (\<lambda>r. row_at s r \<noteq> None) rs"
    and grid: "grid = map (\<lambda>r. the (row_at s r)) rs"
    by (auto simp: board_at_def split: option.splits if_splits)
  from rs have "a < length s" and "s ! a = Rows rs"
    by (auto simp: rows_at_def split: if_splits obj.splits)
  moreover have "r < length s \<and> (\<exists>cs. s ! r = Cells cs)" if "r \<in> set rs" for r
  proof -
    from all that have "row_at s r \<noteq> None"
      by (simp add: list_all_iff)
    then show ?thesis
      by (cases "s ! r") (auto simp: row_at_def split: if_splits)
  qed
  ultimately show ?thesis using rs grid that by blast
qed

text \<open>A store that grows, and changes only above the old objects, denotes the old boards
  as before.\<close>

lemma board_at_extend:
  assumes "board_at s a = Some grid" and "take (length s) s' = s"
  shows "board_at s' a = Some grid"
proof -
  have "length (take (length s) s') = length s"
    by (simp only: assms(2))
  then have len: "length s \<le> length s'"
    by simp
  have same: "s' ! k = s ! k" if "k < length s" for k
    using that assms(2) by (metis nth_take)
  from assms(1) obtain rs where a: "a < length s" "s ! a = Rows rs"
    and rows: "\<forall>r\<in>set rs. r < length s \<and> (\<exists>cs. s ! r = Cells cs)"
    and grid: "grid = map (\<lambda>r. the (row_at s r)) rs"
    by (rule board_at_rows)
  have "rows_at s' a = Some rs"
    using a len same [of a] by (simp add: rows_at_def)
  moreover have "row_at s' r = row_at s r \<and> row_at s r \<noteq> None" if "r \<in> set rs" for r
    using rows that len same [of r] by (auto simp: row_at_def)
  ultimately show ?thesis
    unfolding grid by (auto simp: board_at_def list_all_iff)
qed

lemma length_addrs [simp]: "length (addrs n k) = k"
  by (simp add: addrs_def)

lemma nth_addrs: "i < k \<Longrightarrow> addrs n k ! i = n + i"
  by (simp add: addrs_def del: upt_Suc)

lemma set_addrs: "set (addrs n k) = {n..<n + k}"
  by (simp add: addrs_def)

lemma distinct_addrs [simp]: "distinct (addrs n k)"
  by (simp add: addrs_def)

lemma addrs_0 [simp]: "addrs n 0 = []"
  by (simp add: addrs_def)

lemma addrs_Suc: "addrs n (Suc k) = n # addrs (Suc n) k"
  unfolding addrs_def by (subst upt_rec) simp

text \<open>Rows that are different objects, none of them copied before, get copies at the
  end of the store, one after the other.\<close>

lemma deepcopy_rows_separate:
  assumes "\<forall>r\<in>set rs. r < length s" and "distinct rs" and "set rs \<inter> fst ` set memo = {}"
  shows "deepcopy_rows s memo rs
         = (s @ map (\<lambda>r. s ! r) rs, addrs (length s) (length rs))"
  using assms
proof (induction rs arbitrary: s memo)
  case Nil
  show ?case by simp
next
  case (Cons r rs)
  from Cons.prems(3) have fresh: "map_of memo r = None"
    by (auto simp: map_of_eq_None_iff)
  have 1: "\<forall>k\<in>set rs. k < length (s @ [s ! r])"
    using Cons.prems(1) by auto
  have 2: "distinct rs"
    using Cons.prems(2) by simp
  have 3: "set rs \<inter> fst ` set ((r, length s) # memo) = {}"
    using Cons.prems(2,3) by auto
  have same: "map (\<lambda>k. (s @ [s ! r]) ! k) rs = map (\<lambda>k. s ! k) rs"
    using Cons.prems(1) by (intro map_cong) (auto simp: nth_append)
  show ?case
    using Cons.IH [OF 1 2 3] by (simp add: fresh same Let_def addrs_Suc)
qed

lemma rows_cells:
  assumes "board_at s a = Some grid" and "rows_at s a = Some rs"
  shows "map (\<lambda>r. s ! r) rs = map Cells grid" and "length rs = length grid"
    and "a \<notin> set rs" and "\<forall>r\<in>set rs. r < length s"
proof -
  from assms(1) obtain rs' where rs': "rows_at s a = Some rs'" and a: "s ! a = Rows rs'"
    and rows: "\<forall>r\<in>set rs'. r < length s \<and> (\<exists>cs. s ! r = Cells cs)"
    and grid: "grid = map (\<lambda>r. the (row_at s r)) rs'"
    by (rule board_at_rows)
  from rs' assms(2) have eq: "rs' = rs" by simp
  have "s ! r = Cells (the (row_at s r))" if "r \<in> set rs" for r
    using rows that by (auto simp: eq row_at_def)
  then show "map (\<lambda>r. s ! r) rs = map Cells grid"
    unfolding grid eq by simp
  show "length rs = length grid"
    unfolding grid eq by simp
  show "a \<notin> set rs"
    using rows a by (auto simp: eq)
  show "\<forall>r\<in>set rs. r < length s"
    using rows by (simp add: eq)
qed

text \<open>The deep copy of a board with separate rows: a new board object, followed by new
  rows with the marks of the old ones.\<close>

lemma deepcopy_eq:
  assumes "board_at s a = Some grid" and "separate_rows s a"
  shows "deepcopy s a
         = (s @ Rows (addrs (Suc (length s)) (length grid)) # map Cells grid, length s)"
proof -
  from assms(2) obtain rs where rs: "rows_at s a = Some rs" and dist: "distinct rs"
    by (auto simp: separate_rows_def split: option.splits)
  note facts = rows_cells [OF assms(1) rs]
  have 1: "\<forall>r\<in>set rs. r < length (s @ [Rows []])"
    using facts(4) by auto
  have 2: "set rs \<inter> fst ` set [(a, length s)] = {}"
    using facts(3) by simp
  have same: "map (\<lambda>r. (s @ [Rows []]) ! r) rs = map (\<lambda>r. s ! r) rs"
    using facts(4) by (intro map_cong) (auto simp: nth_append)
  have "deepcopy_rows (s @ [Rows []]) [(a, length s)] rs
        = ((s @ [Rows []]) @ map Cells grid, addrs (Suc (length s)) (length grid))"
    unfolding deepcopy_rows_separate [OF 1 dist 2] same facts(1) facts(2) by simp
  then show ?thesis
    by (simp add: deepcopy_def rs list_update_append Let_def)
qed

lemma board_at_fresh:
  "board_at (s @ Rows (addrs (Suc (length s)) (length grid)) # map Cells grid) (length s)
   = Some grid"
proof -
  let ?s = "s @ Rows (addrs (Suc (length s)) (length grid)) # map Cells grid"
  have rows: "rows_at ?s (length s) = Some (addrs (Suc (length s)) (length grid))"
    by (simp add: rows_at_def)
  have row: "row_at ?s (Suc (length s + k)) = Some (grid ! k)" if "k < length grid" for k
    using that by (simp add: row_at_def nth_append)
  have all: "list_all (\<lambda>r. row_at ?s r \<noteq> None) (addrs (Suc (length s)) (length grid))"
  proof -
    have "row_at ?s r \<noteq> None" if "r \<in> set (addrs (Suc (length s)) (length grid))" for r
    proof -
      from that have "Suc (length s) \<le> r" and "r < Suc (length s) + length grid"
        by (simp_all add: set_addrs)
      then have "r = Suc (length s + (r - Suc (length s)))" and "r - Suc (length s) < length grid"
        by arith+
      with row [of "r - Suc (length s)"] show ?thesis by simp
    qed
    then show ?thesis
      unfolding list_all_iff by blast
  qed
  have "map (\<lambda>r. the (row_at ?s r)) (addrs (Suc (length s)) (length grid)) = grid"
    by (rule nth_equalityI) (simp_all add: row nth_addrs)
  with rows all show ?thesis
    unfolding board_at_def by simp
qed

lemma separate_rows_fresh:
  "separate_rows (s @ Rows (addrs (Suc (length s)) n) # cs) (length s)"
  by (simp add: separate_rows_def rows_at_def)

lemma initial_state_store_eq:
  "initial_state_store s = (s', a) \<Longrightarrow>
   board_at s' a = Some initial_state \<and> separate_rows s' a \<and> take (length s) s' = s"
  by (auto simp: initial_state_store_def Let_def board_at_def rows_at_def row_at_def
      separate_rows_def initial_state_def nth_append)

text \<open>
  \<^verbatim>\<open>result\<close> on a board with separate rows: the same exception or the same grid as the
  function on grids; the objects that were in the store before are as before, and the
  board returned has separate rows again.
\<close>

lemma result_store_eq:
  assumes grid: "board_at s a = Some grid" and sep: "separate_rows s a"
  shows "case result grid action of
           Inl e \<Rightarrow> result_store s a action = Inl e
         | Inr grid' \<Rightarrow>
             (\<exists>s' a'. result_store s a action = Inr (s', a')
                \<and> board_at s' a' = Some grid' \<and> separate_rows s' a'
                \<and> board_at s' a = Some grid \<and> take (length s) s' = s)"
proof (cases "result grid action")
  case (Inl e)
  then show ?thesis
    using grid
    by (auto simp: result_def result_store_def split: sum.splits if_splits)
next
  case (Inr grid')
  then obtain i j where i: "subscript grid (fst action) = Inr i"
    and j: "subscript (grid ! i) (snd action) = Inr j"
    and empty: "grid ! i ! j = None"
    and grid': "grid' = grid[i := (grid ! i)[j := Some (player grid)]]"
    by (auto simp: result_def split: sum.splits if_splits)
  let ?n = "length s"
  let ?ys = "addrs (Suc ?n) (length grid)"
  let ?s1 = "s @ Rows ?ys # map Cells grid"
  let ?s2 = "s @ Rows ?ys # map Cells grid'"
  have il: "i < length grid"
    using i by (rule subscript_Inr)
  have copy: "deepcopy s a = (?s1, ?n)"
    by (rule deepcopy_eq [OF grid sep])
  have old: "board_at ?s1 a = Some grid"
    by (rule board_at_extend [OF grid]) simp
  have rows: "rows_at ?s1 ?n = Some ?ys"
    by (simp add: rows_at_def)
  have row: "?ys ! i = Suc (?n + i)"
    using il by (simp add: nth_addrs)
  have cells: "row_at ?s1 (Suc (?n + i)) = Some (grid ! i)"
    using il by (simp add: row_at_def nth_append)
  have upd: "?s1[Suc (?n + i) := Cells ((grid ! i)[j := Some (player grid)])] = ?s2"
    using il by (simp add: list_update_append grid' map_update)
  have run: "result_store s a action = Inr (?s2, ?n)"
    using grid i j empty
    by (simp add: result_store_def copy old rows row cells upd Let_def)
  have "length grid' = length grid"
    by (simp add: grid')
  then have new: "board_at ?s2 ?n = Some grid'" and sep': "separate_rows ?s2 ?n"
    using board_at_fresh [of s grid'] separate_rows_fresh [of s "length grid" "map Cells grid'"]
    by simp_all
  have old': "board_at ?s2 a = Some grid"
    by (rule board_at_extend [OF grid]) simp
  show ?thesis
    using Inr run new sep' old' by simp
qed

subsection \<open>The effect of a move\<close>

lemma result_effect:
  assumes "wf_board board"
    and "subscript board i = Inr r" and "subscript (board ! r) j = Inr c"
  shows "board ! r ! c \<noteq> None \<Longrightarrow> result board (i, j) = Inl IllegalAction"
    and "board ! r ! c = None \<Longrightarrow>
           \<exists>b'. result board (i, j) = Inr b' \<and> wf_board b'
                \<and> b' ! r ! c = Some (player board)
                \<and> (\<forall>r' c'. (r', c') \<noteq> (r, c) \<longrightarrow> b' ! r' ! c' = board ! r' ! c')"
proof -
  assume "board ! r ! c \<noteq> None"
  then show "result board (i, j) = Inl IllegalAction"
    using assms(2,3) by (simp add: result_def)
next
  assume empty: "board ! r ! c = None"
  let ?b = "board[r := (board ! r)[c := Some (player board)]]"
  have r: "r < length board" and c: "c < length (board ! r)"
    using subscript_Inr [OF assms(2)] subscript_Inr [OF assms(3)] .
  have "result board (i, j) = Inr ?b"
    using assms(2,3) empty by (simp add: result_def)
  moreover have "wf_board ?b"
    using assms(1) by (rule wf_board_update)
  moreover have "?b ! r ! c = Some (player board)"
    using r c by simp
  moreover have "?b ! r' ! c' = board ! r' ! c'" if "(r', c') \<noteq> (r, c)" for r' c'
  proof (cases "r' = r")
    case True
    with that have "c' \<noteq> c" by simp
    with True r show ?thesis by simp
  next
    case False
    then show ?thesis by simp
  qed
  ultimately show "\<exists>b'. result board (i, j) = Inr b' \<and> wf_board b'
      \<and> b' ! r ! c = Some (player board)
      \<and> (\<forall>r' c'. (r', c') \<noteq> (r, c) \<longrightarrow> b' ! r' ! c' = board ! r' ! c')"
    by blast
qed

text \<open>
  C7. A reference \<open>board\<close> to a 3 by 3 board with separate rows (as \<^verbatim>\<open>initial_state\<close> and
  \<^verbatim>\<open>result\<close> build them), and an action \<open>(i, j)\<close> that addresses the cell in row \<open>r\<close> and
  column \<open>c\<close>. When the cell is occupied, \<^verbatim>\<open>result\<close> raises the illegal-action exception.
  When it is empty, \<^verbatim>\<open>result\<close> returns a reference to a 3 by 3 board that holds the mark
  of the player to move at that cell and equals the input board at every other cell;
  the input board and every object that was in the store are unmodified, and the grid
  returned is the one that the function on grids computes.
\<close>

theorem result_frame:
  assumes "board_at s board = Some grid" and "separate_rows s board" and "wf_board grid"
    and "subscript grid i = Inr r" and "subscript (grid ! r) j = Inr c"
  shows "(grid ! r ! c \<noteq> None \<longrightarrow> result_store s board (i, j) = Inl IllegalAction)
       \<and> (grid ! r ! c = None \<longrightarrow>
            (\<exists>s' new_board grid'.
                result_store s board (i, j) = Inr (s', new_board)
                \<and> board_at s' new_board = Some grid' \<and> wf_board grid'
                \<and> grid' ! r ! c = Some (player grid)
                \<and> (\<forall>r' c'. (r', c') \<noteq> (r, c) \<longrightarrow> grid' ! r' ! c' = grid ! r' ! c')
                \<and> board_at s' board = Some grid \<and> take (length s) s' = s
                \<and> separate_rows s' new_board
                \<and> result grid (i, j) = Inr grid'))"
proof (intro conjI impI)
  assume "grid ! r ! c \<noteq> None"
  then have "result grid (i, j) = Inl IllegalAction"
    by (rule result_effect(1) [OF assms(3,4,5)])
  with result_store_eq [OF assms(1,2), of "(i, j)"]
  show "result_store s board (i, j) = Inl IllegalAction"
    by simp
next
  assume "grid ! r ! c = None"
  from result_effect(2) [OF assms(3,4,5) this] obtain grid' where
    grid': "result grid (i, j) = Inr grid'" and wf: "wf_board grid'"
    and cell: "grid' ! r ! c = Some (player grid)"
    and frame: "\<forall>r' c'. (r', c') \<noteq> (r, c) \<longrightarrow> grid' ! r' ! c' = grid ! r' ! c'"
    by blast
  from result_store_eq [OF assms(1,2), of "(i, j)"] grid' obtain s' new_board where
    "result_store s board (i, j) = Inr (s', new_board)"
    and "board_at s' new_board = Some grid'" and "separate_rows s' new_board"
    and "board_at s' board = Some grid" and "take (length s) s' = s"
    by auto
  with grid' wf cell frame
  show "\<exists>s' new_board grid'.
          result_store s board (i, j) = Inr (s', new_board)
          \<and> board_at s' new_board = Some grid' \<and> wf_board grid'
          \<and> grid' ! r ! c = Some (player grid)
          \<and> (\<forall>r' c'. (r', c') \<noteq> (r, c) \<longrightarrow> grid' ! r' ! c' = grid ! r' ! c')
          \<and> board_at s' board = Some grid \<and> take (length s) s' = s
          \<and> separate_rows s' new_board
          \<and> result grid (i, j) = Inr grid'"
    by blast
qed

text \<open>A store with one board: X in a corner, O in the centre.\<close>

definition store1 :: store where
  "store1 = [Cells [Some MarkX, None, None], Cells [None, Some MarkO, None],
             Cells [None, None, None], Rows [0, 1, 2]]"

definition grid1 :: board where
  "grid1 = [[Some MarkX, None, None], [None, Some MarkO, None], [None, None, None]]"

lemma board_at_store1: "board_at store1 3 = Some grid1"
  by (simp add: board_at_def rows_at_def row_at_def store1_def grid1_def)

lemma separate_rows_store1: "separate_rows store1 3"
  by (simp add: separate_rows_def rows_at_def store1_def)

theorem result_frame_witness:
  "board_at store1 3 = Some grid1 \<and> separate_rows store1 3 \<and> wf_board grid1
   \<and> subscript grid1 (- 1) = Inr 2 \<and> subscript (grid1 ! 2) 2 = Inr 2
   \<and> subscript grid1 1 = Inr 1 \<and> subscript (grid1 ! 1) 1 = Inr 1
   \<and> (\<exists>s' new_board.
         result_store store1 3 (- 1, 2) = Inr (s', new_board)
         \<and> board_at s' new_board
             = Some [[Some MarkX, None, None], [None, Some MarkO, None], [None, None, Some MarkX]]
         \<and> board_at s' 3 = Some grid1)
   \<and> result_store store1 3 (1, 1) = Inl IllegalAction"
proof -
  have wf: "wf_board grid1" by (simp add: grid1_def)
  have i: "subscript grid1 (- 1) = Inr 2" by (simp add: subscript_def Let_def grid1_def)
  have j: "subscript (grid1 ! 2) 2 = Inr 2" by (simp add: subscript_def Let_def nth3 grid1_def)
  have i': "subscript grid1 1 = Inr 1" by (simp add: subscript_def Let_def grid1_def)
  have j': "subscript (grid1 ! 1) 1 = Inr 1" by (simp add: subscript_def Let_def nth3 grid1_def)
  have moved: "result grid1 (- 1, 2)
      = Inr [[Some MarkX, None, None], [None, Some MarkO, None], [None, None, Some MarkX]]"
    by (simp add: result_def subscript_def Let_def nth3 player_lit numeral_2_eq_2 grid1_def)
  have empty: "grid1 ! 2 ! 2 = None" and occupied: "grid1 ! 1 ! 1 \<noteq> None"
    by (simp_all add: grid1_def nth3)
  from result_frame [OF board_at_store1 separate_rows_store1 wf i j] empty moved
  have "\<exists>s' new_board.
         result_store store1 3 (- 1, 2) = Inr (s', new_board)
         \<and> board_at s' new_board
             = Some [[Some MarkX, None, None], [None, Some MarkO, None], [None, None, Some MarkX]]
         \<and> board_at s' 3 = Some grid1"
    by auto
  moreover from result_frame [OF board_at_store1 separate_rows_store1 wf i' j'] occupied
  have "result_store store1 3 (1, 1) = Inl IllegalAction"
    by simp
  ultimately show ?thesis
    using board_at_store1 separate_rows_store1 wf i j i' j' by simp
qed

section \<open>Project 2: heredity\<close>

subsection \<open>Loading the pedigree\<close>

text \<open>
  One entry of the dictionary that \<^verbatim>\<open>load_data\<close> builds. The dictionary itself is an
  association list in insertion order, as a Python \<^verbatim>\<open>dict\<close> is.
\<close>

record person =
  name :: string
  mother :: "string option"
  father :: "string option"
  trait :: "bool option"

type_synonym people = "(string \<times> person) list"

text \<open>
  A row of \<^verbatim>\<open>csv.DictReader\<close> maps the column names of the header to the texts of the
  row; \<^verbatim>\<open>row["name"]\<close> raises KeyError when the header has no such column.
\<close>

type_synonym row = "string \<rightharpoonup> string"

definition column :: "row \<Rightarrow> string \<Rightarrow> error + string" where
  "column row k = (case row k of None \<Rightarrow> Inl KeyError | Some v \<Rightarrow> Inr v)"

text \<open>\<^verbatim>\<open>x or None\<close> on a string: the empty string is false.\<close>

definition or_None :: "string \<Rightarrow> string option" where
  "or_None x = (if x = [] then None else Some x)"

fun load_rows :: "people \<Rightarrow> row list \<Rightarrow> error + people" where
  "load_rows data [] = Inr data"
| "load_rows data (row # rows) =
     (case column row ''name'' of
        Inl e \<Rightarrow> Inl e
      | Inr nm \<Rightarrow>
     (case column row ''mother'' of
        Inl e \<Rightarrow> Inl e
      | Inr m \<Rightarrow>
     (case column row ''father'' of
        Inl e \<Rightarrow> Inl e
      | Inr f \<Rightarrow>
     (case column row ''trait'' of
        Inl e \<Rightarrow> Inl e
      | Inr t \<Rightarrow>
          load_rows
            (AList.update nm
               \<lparr>name = nm, mother = or_None m, father = or_None f,
                trait = (if t = ''1'' then Some True
                         else if t = ''0'' then Some False else None)\<rparr>
               data)
            rows))))"

definition load_data :: "row list \<Rightarrow> error + people" where
  "load_data rows = load_rows [] rows"

text \<open>What the loader makes of one row that has the four columns.\<close>

definition person_of :: "row \<Rightarrow> person" where
  "person_of row =
     \<lparr>name = the (row ''name''), mother = or_None (the (row ''mother'')),
      father = or_None (the (row ''father'')),
      trait = (if the (row ''trait'') = ''1'' then Some True
               else if the (row ''trait'') = ''0'' then Some False else None)\<rparr>"

definition has_columns :: "row \<Rightarrow> bool" where
  "has_columns row \<longleftrightarrow>
     row ''name'' \<noteq> None \<and> row ''mother'' \<noteq> None \<and> row ''father'' \<noteq> None
     \<and> row ''trait'' \<noteq> None"

lemma load_rows_step:
  "has_columns row \<Longrightarrow>
   load_rows data (row # rows) = load_rows (AList.update (name (person_of row)) (person_of row) data) rows"
  by (auto simp: has_columns_def column_def person_of_def)

lemma load_rows_all:
  assumes "list_all has_columns rows" and "distinct (map fst data)"
  shows "\<exists>data'. load_rows data rows = Inr data' \<and> distinct (map fst data')
          \<and> map_of data'
              = map_of data ++ map_of (rev (map (\<lambda>row. (name (person_of row), person_of row)) rows))"
  using assms
proof (induction rows arbitrary: data)
  case Nil
  then show ?case by simp
next
  case (Cons row rows)
  let ?d = "AList.update (name (person_of row)) (person_of row) data"
  from Cons.prems(1) have cols: "has_columns row" and rest: "list_all has_columns rows"
    by simp_all
  have "distinct (map fst ?d)"
    using Cons.prems(2) by (simp add: distinct_update)
  from Cons.IH [OF rest this] obtain data' where
    d': "load_rows ?d rows = Inr data'" "distinct (map fst data')"
      "map_of data' = map_of ?d
         ++ map_of (rev (map (\<lambda>row. (name (person_of row), person_of row)) rows))"
    by blast
  have "map_of data' = map_of data
         ++ map_of (rev (map (\<lambda>row. (name (person_of row), person_of row)) (row # rows)))"
    unfolding d'(3) by (simp add: update_conv')
  with d'(1,2) load_rows_step [OF cols, of data rows] show ?case by simp
qed

text \<open>
  C4 (as amended). \<^verbatim>\<open>load_data\<close> checks no parent reference. On rows that carry the
  four columns it always returns the dictionary of all rows: its keys are distinct, and
  the entry of a name is the person of the last row of that name.
\<close>

theorem load_data_all_rows:
  assumes "list_all has_columns rows"
  shows "\<exists>data. load_data rows = Inr data \<and> distinct (map fst data)
          \<and> map_of data
              = map_of (rev (map (\<lambda>row. (name (person_of row), person_of row)) rows))"
  using load_rows_all [OF assms, of "[]"] by (simp add: load_data_def)

text \<open>
  A pedigree whose only row names a mother that is no row of the input, and no father:
  loading returns the dictionary, it does not fail.
\<close>

definition orphan_row :: row where
  "orphan_row = [''name'' \<mapsto> ''Harry'', ''mother'' \<mapsto> ''Lily'', ''father'' \<mapsto> [],
                 ''trait'' \<mapsto> []]"

theorem load_data_unvalidated:
  "load_data [orphan_row]
   = Inr [(''Harry'', \<lparr>name = ''Harry'', mother = Some ''Lily'', father = None, trait = None\<rparr>)]"
  by (simp add: load_data_def orphan_row_def column_def or_None_def)

theorem load_data_all_rows_witness:
  "list_all has_columns [orphan_row]
   \<and> (\<exists>data. load_data [orphan_row] = Inr data \<and> distinct (map fst data)
          \<and> map_of data
              = map_of (rev (map (\<lambda>row. (name (person_of row), person_of row)) [orphan_row])))"
proof -
  have "list_all has_columns [orphan_row]"
    by (simp add: has_columns_def orphan_row_def)
  from this load_data_all_rows [OF this] show ?thesis by blast
qed

subsection \<open>The joint probability\<close>

text \<open>
  Python's floating-point numbers are modelled by the real numbers: the tables and the
  arithmetic below are exact.
\<close>

text \<open>\<^verbatim>\<open>PROBS["gene"]\<close>, \<^verbatim>\<open>PROBS["trait"]\<close> and \<^verbatim>\<open>PROBS["mutation"]\<close>; the keys of the
  two tables are the gene counts 0, 1 and 2.\<close>

definition PROBS_gene :: "nat \<Rightarrow> real" where
  "PROBS_gene n = (if n = 2 then 0.01 else if n = 1 then 0.03 else 0.96)"

definition PROBS_trait :: "nat \<Rightarrow> bool \<Rightarrow> real" where
  "PROBS_trait n t =
     (if n = 2 then (if t then 0.65 else 0.35)
      else if n = 1 then (if t then 0.56 else 0.44)
      else (if t then 0.01 else 0.99))"

definition PROBS_mutation :: real where
  "PROBS_mutation = 0.01"

text \<open>
  \<^verbatim>\<open>person_num_of_genes\<close>; it is also called on a parent that is \<open>None\<close>, which is in
  no set.
\<close>

definition person_num_of_genes :: "string option \<Rightarrow> string set \<Rightarrow> string set \<Rightarrow> nat" where
  "person_num_of_genes person one_gene two_genes =
     (case person of
        None \<Rightarrow> 0
      | Some p \<Rightarrow> if p \<in> one_gene then 1 else if p \<in> two_genes then 2 else 0)"

definition parent_inherit_process :: "nat \<Rightarrow> bool \<Rightarrow> real" where
  "parent_inherit_process num_of_genes is_inherited =
     (if num_of_genes = 0 then (if is_inherited then PROBS_mutation else 1 - PROBS_mutation)
      else if num_of_genes = 1 then 0.5
      else (if is_inherited then 1 - PROBS_mutation else PROBS_mutation))"

definition joint_probability ::
  "people \<Rightarrow> string set \<Rightarrow> string set \<Rightarrow> string set \<Rightarrow> real" where
  "joint_probability people one_gene two_genes have_trait =
     fold (\<lambda>(person, info) probability.
             let num_of_genes_person = person_num_of_genes (Some person) one_gene two_genes;
                 has_trait = (person \<in> have_trait)
             in if mother info = None \<and> father info = None
                then probability * (PROBS_gene num_of_genes_person
                                     * PROBS_trait num_of_genes_person has_trait)
                else
                  let num_of_genes_mother = person_num_of_genes (mother info) one_gene two_genes;
                      num_of_genes_father = person_num_of_genes (father info) one_gene two_genes;
                      probability =
                        (if num_of_genes_person = 0
                         then probability * (parent_inherit_process num_of_genes_mother False
                                              * parent_inherit_process num_of_genes_father False)
                         else if num_of_genes_person = 1
                         then probability * (parent_inherit_process num_of_genes_mother False
                                               * parent_inherit_process num_of_genes_father True
                                             + parent_inherit_process num_of_genes_mother True
                                               * parent_inherit_process num_of_genes_father False)
                         else probability * (parent_inherit_process num_of_genes_mother True
                                              * parent_inherit_process num_of_genes_father True))
                  in probability * PROBS_trait num_of_genes_person has_trait)
          people 1"

text \<open>
  The specification's reading. A parent with 0 copies passes the gene on with the
  mutation rate, with 1 copy with probability one half, with 2 copies with 1 minus the
  mutation rate.
\<close>

definition spec_gene_count :: "string \<Rightarrow> string set \<Rightarrow> string set \<Rightarrow> nat" where
  "spec_gene_count person one_gene two_genes =
     (if person \<in> two_genes then 2 else if person \<in> one_gene then 1 else 0)"

definition spec_parent_count :: "string option \<Rightarrow> string set \<Rightarrow> string set \<Rightarrow> nat" where
  "spec_parent_count parent one_gene two_genes =
     (case parent of None \<Rightarrow> 0 | Some p \<Rightarrow> spec_gene_count p one_gene two_genes)"

definition spec_transmit :: "nat \<Rightarrow> real" where
  "spec_transmit copies =
     (if copies = 0 then PROBS_mutation else if copies = 1 then 1 / 2 else 1 - PROBS_mutation)"

definition spec_inherit :: "nat \<Rightarrow> real \<Rightarrow> real \<Rightarrow> real" where
  "spec_inherit count pm pf =
     (if count = 0 then (1 - pm) * (1 - pf)
      else if count = 2 then pm * pf
      else pm * (1 - pf) + (1 - pm) * pf)"

definition spec_factor ::
  "string set \<Rightarrow> string set \<Rightarrow> string set \<Rightarrow> string \<times> person \<Rightarrow> real" where
  "spec_factor one_gene two_genes have_trait entry =
     (let count = spec_gene_count (fst entry) one_gene two_genes;
          likelihood = PROBS_trait count (fst entry \<in> have_trait)
      in if mother (snd entry) = None \<and> father (snd entry) = None
         then PROBS_gene count * likelihood
         else spec_inherit count
                (spec_transmit (spec_parent_count (mother (snd entry)) one_gene two_genes))
                (spec_transmit (spec_parent_count (father (snd entry)) one_gene two_genes))
              * likelihood)"

lemma spec_parent_count_Some [simp]:
  "spec_parent_count (Some p) one_gene two_genes = spec_gene_count p one_gene two_genes"
  by (simp add: spec_parent_count_def)

lemma person_num_of_genes_spec:
  "one_gene \<inter> two_genes = {} \<Longrightarrow>
   person_num_of_genes (Some p) one_gene two_genes = spec_gene_count p one_gene two_genes"
  by (auto simp: person_num_of_genes_def spec_gene_count_def)

lemma parent_num_of_genes_spec:
  "one_gene \<inter> two_genes = {} \<Longrightarrow>
   person_num_of_genes parent one_gene two_genes = spec_parent_count parent one_gene two_genes"
  by (cases parent) (auto simp: person_num_of_genes_def spec_parent_count_def spec_gene_count_def)

lemma parent_inherit_process_spec:
  "parent_inherit_process n True = spec_transmit n"
  "parent_inherit_process n False = 1 - spec_transmit n"
  by (simp_all add: parent_inherit_process_def spec_transmit_def)

lemma spec_gene_count_cases:
  "spec_gene_count p one_gene two_genes = 0 \<or> spec_gene_count p one_gene two_genes = 1
   \<or> spec_gene_count p one_gene two_genes = 2"
  by (simp add: spec_gene_count_def)

lemma fold_times:
  "fold (\<lambda>x (p :: real). p * f x) xs acc = acc * prod_list (map f xs)"
  by (induction xs arbitrary: acc) (simp_all add: mult.assoc)

lemma joint_probability_step:
  assumes "one_gene \<inter> two_genes = {}"
  shows "(\<lambda>(person, info) probability.
             let num_of_genes_person = person_num_of_genes (Some person) one_gene two_genes;
                 has_trait = (person \<in> have_trait)
             in if mother info = None \<and> father info = None
                then probability * (PROBS_gene num_of_genes_person
                                     * PROBS_trait num_of_genes_person has_trait)
                else
                  let num_of_genes_mother = person_num_of_genes (mother info) one_gene two_genes;
                      num_of_genes_father = person_num_of_genes (father info) one_gene two_genes;
                      probability =
                        (if num_of_genes_person = 0
                         then probability * (parent_inherit_process num_of_genes_mother False
                                              * parent_inherit_process num_of_genes_father False)
                         else if num_of_genes_person = 1
                         then probability * (parent_inherit_process num_of_genes_mother False
                                               * parent_inherit_process num_of_genes_father True
                                             + parent_inherit_process num_of_genes_mother True
                                               * parent_inherit_process num_of_genes_father False)
                         else probability * (parent_inherit_process num_of_genes_mother True
                                              * parent_inherit_process num_of_genes_father True))
                  in probability * PROBS_trait num_of_genes_person has_trait)
        = (\<lambda>entry probability. probability * spec_factor one_gene two_genes have_trait entry)"
proof (intro ext)
  fix entry :: "string \<times> person" and probability :: real
  obtain person info where entry: "entry = (person, info)" by (cases entry)
  have count: "person_num_of_genes (Some person) one_gene two_genes
               = spec_gene_count person one_gene two_genes"
    by (rule person_num_of_genes_spec [OF assms])
  show "(case entry of (person, info) \<Rightarrow> \<lambda>probability.
             let num_of_genes_person = person_num_of_genes (Some person) one_gene two_genes;
                 has_trait = (person \<in> have_trait)
             in if mother info = None \<and> father info = None
                then probability * (PROBS_gene num_of_genes_person
                                     * PROBS_trait num_of_genes_person has_trait)
                else
                  let num_of_genes_mother = person_num_of_genes (mother info) one_gene two_genes;
                      num_of_genes_father = person_num_of_genes (father info) one_gene two_genes;
                      probability =
                        (if num_of_genes_person = 0
                         then probability * (parent_inherit_process num_of_genes_mother False
                                              * parent_inherit_process num_of_genes_father False)
                         else if num_of_genes_person = 1
                         then probability * (parent_inherit_process num_of_genes_mother False
                                               * parent_inherit_process num_of_genes_father True
                                             + parent_inherit_process num_of_genes_mother True
                                               * parent_inherit_process num_of_genes_father False)
                         else probability * (parent_inherit_process num_of_genes_mother True
                                              * parent_inherit_process num_of_genes_father True))
                  in probability * PROBS_trait num_of_genes_person has_trait) probability
        = probability * spec_factor one_gene two_genes have_trait entry"
    using spec_gene_count_cases [of person one_gene two_genes]
    unfolding entry
    by (elim disjE)
       (simp_all add: Let_def count spec_factor_def spec_inherit_def
          parent_num_of_genes_spec [OF assms] parent_inherit_process_spec algebra_simps)
qed

text \<open>
  C2. For disjoint \<open>one_gene\<close> and \<open>two_genes\<close>, \<^verbatim>\<open>joint_probability\<close> is the product,
  over the persons, of the factor the specification describes: prior times likelihood
  for a person without parents; for the others, the probability that the two parents
  pass on the person's number of copies, times the likelihood.
\<close>

theorem joint_probability_product:
  assumes "one_gene \<inter> two_genes = {}"
  shows "joint_probability people one_gene two_genes have_trait
         = prod_list (map (spec_factor one_gene two_genes have_trait) people)"
  unfolding joint_probability_def joint_probability_step [OF assms] fold_times by simp

definition family :: people where
  "family =
     [(''Harry'', \<lparr>name = ''Harry'', mother = Some ''Lily'', father = Some ''James'', trait = None\<rparr>),
      (''James'', \<lparr>name = ''James'', mother = None, father = None, trait = Some True\<rparr>),
      (''Lily'', \<lparr>name = ''Lily'', mother = None, father = None, trait = Some False\<rparr>)]"

theorem joint_probability_product_witness:
  "{''Harry''} \<inter> {''James''} = ({} :: string set)
   \<and> joint_probability family {''Harry''} {''James''} {''James''}
       = prod_list (map (spec_factor {''Harry''} {''James''} {''James''}) family)
   \<and> joint_probability family {''Harry''} {''James''} {''James''} = 0.0026643247488"
proof -
  have d: "{''Harry''} \<inter> {''James''} = ({} :: string set)" by simp
  have "joint_probability family {''Harry''} {''James''} {''James''} = 0.0026643247488"
    by (simp add: joint_probability_def family_def person_num_of_genes_def
          parent_inherit_process_def PROBS_gene_def PROBS_trait_def PROBS_mutation_def)
  with d joint_probability_product [OF d, of family "{''James''}"] show ?thesis by blast
qed

subsection \<open>Accumulating and normalising\<close>

text \<open>
  The two distributions kept for each person: \<^verbatim>\<open>"gene"\<close>, with the keys 0, 1 and 2, and
  \<^verbatim>\<open>"trait"\<close>, with the keys \<^verbatim>\<open>True\<close> and \<^verbatim>\<open>False\<close>.
\<close>

record distribution =
  gene :: "nat \<Rightarrow> real"
  trait_dist :: "bool \<Rightarrow> real"

type_synonym probabilities = "(string \<times> distribution) list"

definition update ::
  "probabilities \<Rightarrow> string set \<Rightarrow> string set \<Rightarrow> string set \<Rightarrow> real \<Rightarrow> probabilities" where
  "update probabilities one_gene two_genes have_trait p =
     map (\<lambda>(person, d).
            let num_of_genes = person_num_of_genes (Some person) one_gene two_genes;
                has_trait = (person \<in> have_trait)
            in (person,
                d\<lparr>gene := (gene d)(num_of_genes := gene d num_of_genes + p),
                  trait_dist := (trait_dist d)(has_trait := trait_dist d has_trait + p)\<rparr>))
         probabilities"

text \<open>
  \<^verbatim>\<open>normalize\<close>: for each person, divide 1 by the sum of the three gene values and scale
  them, then the same for the two trait values. A sum of 0 is a division by zero.
\<close>

fun normalize :: "probabilities \<Rightarrow> error + probabilities" where
  "normalize [] = Inr []"
| "normalize ((person, d) # rest) =
     (let gene_probabilities_sum =
            fold (\<lambda>num_of_genes s. s + gene d num_of_genes) [0..<3] 0
      in if gene_probabilities_sum = 0 then Inl ZeroDivisionError
         else
           let gene_factor = 1 / gene_probabilities_sum;
               g = fold (\<lambda>num_of_genes g. g(num_of_genes := gene_factor * g num_of_genes))
                     [0..<3] (gene d);
               trait_probabilities_sum = 0 + trait_dist d True + trait_dist d False
           in if trait_probabilities_sum = 0 then Inl ZeroDivisionError
              else
                let trait_factor = 1 / trait_probabilities_sum;
                    t = (trait_dist d)(True := trait_factor * trait_dist d True);
                    t = t(False := trait_factor * t False)
                in (case normalize rest of
                      Inl e \<Rightarrow> Inl e
                    | Inr rest' \<Rightarrow> Inr ((person, \<lparr>gene = g, trait_dist = t\<rparr>) # rest')))"

definition gene_sum :: "distribution \<Rightarrow> real" where
  "gene_sum d = gene d 0 + gene d 1 + gene d 2"

definition trait_sum :: "distribution \<Rightarrow> real" where
  "trait_sum d = trait_dist d True + trait_dist d False"

text \<open>What \<^verbatim>\<open>normalize\<close> is to make of one person's entry.\<close>

definition normalized_entry :: "string \<times> distribution \<Rightarrow> string \<times> distribution \<Rightarrow> bool" where
  "normalized_entry old new \<longleftrightarrow>
     fst new = fst old
     \<and> gene_sum (snd new) = 1 \<and> trait_sum (snd new) = 1
     \<and> gene (snd new) 0 = gene (snd old) 0 / gene_sum (snd old)
     \<and> gene (snd new) 1 = gene (snd old) 1 / gene_sum (snd old)
     \<and> gene (snd new) 2 = gene (snd old) 2 / gene_sum (snd old)
     \<and> trait_dist (snd new) True = trait_dist (snd old) True / trait_sum (snd old)
     \<and> trait_dist (snd new) False = trait_dist (snd old) False / trait_sum (snd old)"


definition scaled :: "distribution \<Rightarrow> distribution" where
  "scaled d =
     \<lparr>gene = (\<lambda>n. if n < 3 then 1 / gene_sum d * gene d n else gene d n),
      trait_dist = (\<lambda>t. 1 / trait_sum d * trait_dist d t)\<rparr>"

lemma normalize_Cons:
  assumes "gene_sum d \<noteq> 0" and "trait_sum d \<noteq> 0"
  shows "normalize ((person, d) # rest) =
           (case normalize rest of
              Inl e \<Rightarrow> Inl e
            | Inr rest' \<Rightarrow> Inr ((person, scaled d) # rest'))"
proof -
  have s: "fold (\<lambda>num_of_genes s. s + gene d num_of_genes) [0..<3] 0 = gene_sum d"
    by (simp add: upt3 gene_sum_def)
  have g: "fold (\<lambda>num_of_genes g. g(num_of_genes := 1 / gene_sum d * g num_of_genes))
             [0..<3] (gene d)
           = (\<lambda>n. if n < 3 then 1 / gene_sum d * gene d n else gene d n)"
    by (rule ext) (auto simp: upt3 numeral_3_eq_3 numeral_2_eq_2 less_Suc_eq)
  have ts: "0 + trait_dist d True + trait_dist d False = trait_sum d"
    by (simp add: trait_sum_def)
  have t: "((trait_dist d)(True := 1 / trait_sum d * trait_dist d True))
             (False := 1 / trait_sum d
                        * ((trait_dist d)(True := 1 / trait_sum d * trait_dist d True)) False)
           = (\<lambda>t. 1 / trait_sum d * trait_dist d t)"
    by (rule ext) simp
  show ?thesis
    unfolding normalize.simps s ts Let_def g t scaled_def using assms by simp
qed

lemma scaled_normalized:
  assumes "gene_sum d \<noteq> 0" and "trait_sum d \<noteq> 0"
  shows "normalized_entry (person, d) (person, scaled d)"
proof -
  have "gene_sum (scaled d) = (gene d 0 + gene d 1 + gene d 2) / gene_sum d"
    unfolding add_divide_distrib by (simp add: scaled_def gene_sum_def [of "\<lparr>gene = _, trait_dist = _\<rparr>"])
  then have g: "gene_sum (scaled d) = 1"
    using assms(1) by (simp add: gene_sum_def)
  have "trait_sum (scaled d) = (trait_dist d True + trait_dist d False) / trait_sum d"
    unfolding add_divide_distrib by (simp add: scaled_def trait_sum_def [of "\<lparr>gene = _, trait_dist = _\<rparr>"])
  then have t: "trait_sum (scaled d) = 1"
    using assms(2) by (simp add: trait_sum_def)
  show ?thesis
    using g t by (simp add: normalized_entry_def) (simp add: scaled_def)
qed

lemma normalize_all:
  assumes "list_all (\<lambda>entry. gene_sum (snd entry) \<noteq> 0 \<and> trait_sum (snd entry) \<noteq> 0)
             probabilities"
  shows "\<exists>normalized. normalize probabilities = Inr normalized
           \<and> list_all2 normalized_entry probabilities normalized"
  using assms
proof (induction probabilities)
  case Nil
  then show ?case by simp
next
  case (Cons entry rest)
  obtain person d where entry: "entry = (person, d)" by (cases entry)
  from Cons.prems have d: "gene_sum d \<noteq> 0" "trait_sum d \<noteq> 0"
    and rest: "list_all (\<lambda>entry. gene_sum (snd entry) \<noteq> 0 \<and> trait_sum (snd entry) \<noteq> 0) rest"
    by (simp_all add: entry)
  from Cons.IH [OF rest] obtain rest' where
    "normalize rest = Inr rest'" "list_all2 normalized_entry rest rest'"
    by blast
  with normalize_Cons [OF d, of person rest] scaled_normalized [OF d, of person]
  show ?case unfolding entry by simp
qed



definition entries :: "probabilities \<Rightarrow> (string \<times> real list) list" where
  "entries probabilities =
     map (\<lambda>(person, d).
            (person, [gene d 0, gene d 1, gene d 2, trait_dist d True, trait_dist d False]))
         probabilities"


subsection \<open>The enumeration of \<^verbatim>\<open>main\<close>\<close>

text \<open>
  \<^verbatim>\<open>itertools.combinations(s, r)\<close>, and \<^verbatim>\<open>powerset\<close>: the subsets of \<open>s\<close> by size. The list
  \<^verbatim>\<open>list(s)\<close> of a set comes in an order the language leaves open: \<open>order\<close>.
\<close>

fun combinations :: "'a list \<Rightarrow> nat \<Rightarrow> 'a list list" where
  "combinations xs 0 = [[]]"
| "combinations [] (Suc r) = []"
| "combinations (x # xs) (Suc r) = map ((#) x) (combinations xs r) @ combinations xs (Suc r)"

definition powerset :: "(string set \<Rightarrow> string list) \<Rightarrow> string set \<Rightarrow> string set list" where
  "powerset order s =
     (let s = order s
      in map set (concat (map (\<lambda>r. combinations s r) [0..<length s + 1])))"

text \<open>
  \<^verbatim>\<open>fails_evidence\<close>: some person's known trait differs from the membership in
  \<open>have_trait\<close>. The persons are keys of \<open>people\<close>, so \<^verbatim>\<open>people[person]\<close> is there.
\<close>

definition fails_evidence ::
  "(string set \<Rightarrow> string list) \<Rightarrow> people \<Rightarrow> string set \<Rightarrow> string set \<Rightarrow> bool" where
  "fails_evidence order people names have_trait =
     list_ex (\<lambda>person.
                case map_of people person of
                  None \<Rightarrow> False
                | Some info \<Rightarrow> trait info \<noteq> None \<and> trait info \<noteq> Some (person \<in> have_trait))
             (order names)"

text \<open>The loops of \<^verbatim>\<open>main\<close>, from the dictionary of zeros to the call of \<^verbatim>\<open>normalize\<close>.\<close>

definition accumulate :: "(string set \<Rightarrow> string list) \<Rightarrow> people \<Rightarrow> probabilities" where
  "accumulate order people =
     (let probabilities =
            map (\<lambda>(person, info). (person, \<lparr>gene = (\<lambda>n. 0), trait_dist = (\<lambda>t. 0)\<rparr>)) people;
          names = set (map fst people)
      in fold (\<lambda>have_trait probabilities.
                 if fails_evidence order people names have_trait then probabilities
                 else
                   fold (\<lambda>one_gene probabilities.
                           fold (\<lambda>two_genes probabilities.
                                   update probabilities one_gene two_genes have_trait
                                     (joint_probability people one_gene two_genes have_trait))
                                (powerset order (names - one_gene)) probabilities)
                        (powerset order names) probabilities)
              (powerset order names) probabilities)"

text \<open>What is asked of \<open>order\<close>: it lists the elements of every set of names.\<close>

definition lists_sets :: "(string set \<Rightarrow> string list) \<Rightarrow> string set \<Rightarrow> bool" where
  "lists_sets order names \<longleftrightarrow> (\<forall>S. S \<subseteq> names \<longrightarrow> set (order S) = S)"

subsection \<open>Every joint probability is positive\<close>

lemma PROBS_gene_pos: "0 < PROBS_gene n"
  by (simp add: PROBS_gene_def)

lemma PROBS_trait_pos: "0 < PROBS_trait n t"
  by (simp add: PROBS_trait_def)

lemma parent_inherit_process_pos: "0 < parent_inherit_process n b"
  by (simp add: parent_inherit_process_def PROBS_mutation_def)

lemma fold_pos:
  assumes "\<And>x (acc :: real). x \<in> set xs \<Longrightarrow> 0 < acc \<Longrightarrow> 0 < f x acc" and "0 < acc"
  shows "0 < fold f xs acc"
  using assms by (induction xs arbitrary: acc) auto

lemma joint_probability_pos: "0 < joint_probability people one_gene two_genes have_trait"
  unfolding joint_probability_def
  by (rule fold_pos)
     (auto simp: Let_def PROBS_gene_pos PROBS_trait_pos parent_inherit_process_pos
        intro!: mult_pos_pos add_pos_pos)

subsection \<open>The subsets that the enumeration visits\<close>

lemma combinations_subset:
  "A \<subseteq> set xs \<Longrightarrow> \<exists>r \<le> length xs. \<exists>ys \<in> set (combinations xs r). set ys = A"
proof (induction xs arbitrary: A)
  case Nil
  then show ?case by simp
next
  case (Cons x xs)
  show ?case
  proof (cases "x \<in> A")
    case True
    with Cons.prems have "A - {x} \<subseteq> set xs" by auto
    from Cons.IH [OF this] obtain r ys where
      "r \<le> length xs" "ys \<in> set (combinations xs r)" "set ys = A - {x}"
      by blast
    with True have "Suc r \<le> length (x # xs)" "x # ys \<in> set (combinations (x # xs) (Suc r))"
      "set (x # ys) = A"
      by auto
    then show ?thesis by blast
  next
    case False
    with Cons.prems have "A \<subseteq> set xs" by auto
    from Cons.IH [OF this] obtain r ys where
      r: "r \<le> length xs" "ys \<in> set (combinations xs r)" "set ys = A"
      by blast
    then have "ys \<in> set (combinations (x # xs) r)"
      by (cases r) auto
    with r show ?thesis by (metis le_SucI length_Cons)
  qed
qed

lemma powerset_member:
  assumes "lists_sets order names" and "S \<subseteq> names" and "A \<subseteq> S"
  shows "A \<in> set (powerset order S)"
proof -
  from assms have "A \<subseteq> set (order S)" by (simp add: lists_sets_def)
  from combinations_subset [OF this] obtain r ys where
    "r \<le> length (order S)" "ys \<in> set (combinations (order S) r)" "set ys = A"
    by blast
  then show ?thesis
    unfolding powerset_def Let_def by (auto simp: image_iff intro!: bexI [of _ r])
qed

subsection \<open>What the enumeration adds up\<close>

text \<open>
  \<open>grown c old new\<close>: the same persons, and each person's gene values and trait values
  sum to \<open>c\<close> more than before.
\<close>

definition grown :: "real \<Rightarrow> probabilities \<Rightarrow> probabilities \<Rightarrow> bool" where
  "grown c old new \<longleftrightarrow>
     list_all2 (\<lambda>a b. fst b = fst a \<and> gene_sum (snd b) = gene_sum (snd a) + c
                  \<and> trait_sum (snd b) = trait_sum (snd a) + c) old new"

lemma grown_refl: "grown 0 ps ps"
  by (simp add: grown_def list_all2_refl)

lemma grown_trans: "grown c ps ps' \<Longrightarrow> grown c' ps' ps'' \<Longrightarrow> grown (c + c') ps ps''"
  by (auto simp: grown_def list_all2_conv_all_nth)

lemma person_num_of_genes_cases:
  "person_num_of_genes p one_gene two_genes = 0 \<or> person_num_of_genes p one_gene two_genes = 1
   \<or> person_num_of_genes p one_gene two_genes = 2"
  by (simp add: person_num_of_genes_def split: option.splits)

lemma gene_sum_update:
  assumes "n = 0 \<or> n = 1 \<or> n = (2 :: nat)"
  shows "gene_sum (d\<lparr>gene := (gene d)(n := gene d n + p), trait_dist := t\<rparr>) = gene_sum d + p"
  using assms by (auto simp: gene_sum_def)

lemma trait_sum_update:
  "trait_sum (d\<lparr>gene := g, trait_dist := (trait_dist d)(b := trait_dist d b + p)\<rparr>)
   = trait_sum d + p"
  by (cases b) (simp_all add: trait_sum_def)

lemma update_grown: "grown p ps (update ps one_gene two_genes have_trait p)"
  unfolding grown_def update_def list_all2_map2
  by (rule list_all2_refl)
     (auto simp: Let_def gene_sum_update [OF person_num_of_genes_cases] trait_sum_update)

lemma fold_grown:
  assumes "\<And>x ps. x \<in> set xs \<Longrightarrow> grown (w x) ps (f x ps)"
  shows "grown (sum_list (map w xs)) ps (fold f xs ps)"
  using assms
proof (induction xs arbitrary: ps)
  case Nil
  then show ?case by (simp add: grown_refl)
next
  case (Cons x xs)
  have "grown (w x) ps (f x ps)" by (rule Cons.prems) simp
  moreover have "grown (sum_list (map w xs)) (f x ps) (fold f xs (f x ps))"
    by (rule Cons.IH) (simp add: Cons.prems)
  ultimately show ?case by (simp add: grown_trans)
qed

text \<open>The sum of the joint probabilities that the enumeration visits.\<close>

definition visited_mass :: "(string set \<Rightarrow> string list) \<Rightarrow> people \<Rightarrow> real" where
  "visited_mass order people =
     (let names = set (map fst people)
      in sum_list (map (\<lambda>have_trait.
                          if fails_evidence order people names have_trait then 0
                          else sum_list (map (\<lambda>one_gene.
                                 sum_list (map (\<lambda>two_genes.
                                   joint_probability people one_gene two_genes have_trait)
                                   (powerset order (names - one_gene))))
                                 (powerset order names)))
                       (powerset order names)))"

lemma accumulate_grown:
  "grown (visited_mass order people)
     (map (\<lambda>(person, info). (person, \<lparr>gene = (\<lambda>n. 0), trait_dist = (\<lambda>t. 0)\<rparr>)) people)
     (accumulate order people)"
  unfolding accumulate_def visited_mass_def Let_def
  by (intro fold_grown) (auto intro!: fold_grown update_grown grown_refl)

lemma sum_list_pos_member:
  assumes "x \<in> set xs" and "0 < f x" and "\<And>y. y \<in> set xs \<Longrightarrow> (0 :: real) \<le> f y"
  shows "0 < sum_list (map f xs)"
  using assms
proof (induction xs)
  case Nil
  then show ?case by simp
next
  case (Cons z xs)
  have rest: "0 \<le> sum_list (map f xs)"
    by (rule sum_list_nonneg) (auto simp: Cons.prems(3))
  show ?case
  proof (cases "x = z")
    case True
    with Cons.prems(2) rest show ?thesis by simp
  next
    case False
    with Cons.prems have "0 < sum_list (map f xs)" by (intro Cons.IH) auto
    moreover have "0 \<le> f z" by (rule Cons.prems(3)) simp
    ultimately show ?thesis by simp
  qed
qed

text \<open>
  The set of the persons whose trait is known to be present agrees with all the
  evidence, and the enumeration visits it with the empty sets of gene carriers.
\<close>

lemma visited_mass_pos:
  assumes "lists_sets order (set (map fst people))"
  shows "0 < visited_mass order people"
proof -
  let ?names = "set (map fst people)"
  let ?H = "{person \<in> ?names. \<exists>info. map_of people person = Some info \<and> trait info = Some True}"
  let ?inner = "\<lambda>have_trait one_gene.
      sum_list (map (\<lambda>two_genes. joint_probability people one_gene two_genes have_trait)
                  (powerset order (?names - one_gene)))"
  let ?mid = "\<lambda>have_trait. sum_list (map (?inner have_trait) (powerset order ?names))"
  let ?summand = "\<lambda>have_trait.
      if fails_evidence order people ?names have_trait then 0 else ?mid have_trait"
  have inner_pos: "0 < ?inner have_trait one_gene" for have_trait one_gene
  proof (rule sum_list_pos_member [where x = "{}"])
    show "{} \<in> set (powerset order (?names - one_gene))"
      by (rule powerset_member [OF assms]) auto
  qed (simp_all add: joint_probability_pos less_imp_le)
  have mid_pos: "0 < ?mid have_trait" for have_trait
  proof (rule sum_list_pos_member [where x = "{}"])
    show "{} \<in> set (powerset order ?names)"
      by (rule powerset_member [OF assms]) auto
    show "0 < ?inner have_trait {}"
      by (rule inner_pos)
    show "0 \<le> ?inner have_trait y" for y
      by (rule less_imp_le [OF inner_pos])
  qed
  have H: "?H \<in> set (powerset order ?names)"
    by (rule powerset_member [OF assms]) auto
  have "set (order ?names) = ?names"
    using assms by (simp add: lists_sets_def)
  moreover have "t = None" if "t \<noteq> Some (t = Some True)" for t :: "bool option"
    using that by (cases t) auto
  ultimately have "\<not> fails_evidence order people ?names ?H"
    by (auto simp: fails_evidence_def list_ex_iff split: option.splits)
  with mid_pos [of ?H] have "0 < ?summand ?H" by simp
  moreover have "0 \<le> ?summand have_trait" for have_trait
    using mid_pos [of have_trait] by (simp add: less_imp_le)
  ultimately have "0 < sum_list (map ?summand (powerset order ?names))"
    using H by (intro sum_list_pos_member [where x = ?H]) auto
  then show ?thesis unfolding visited_mass_def Let_def .
qed

lemma accumulate_sums:
  "list_all (\<lambda>entry. gene_sum (snd entry) = visited_mass order people
                    \<and> trait_sum (snd entry) = visited_mass order people)
     (accumulate order people)"
  using accumulate_grown [of order people]
  by (auto simp: grown_def list_all2_conv_all_nth list_all_length gene_sum_def trait_sum_def
        split_beta)

lemma accumulate_keys: "map fst (accumulate order people) = map fst people"
proof -
  have "map fst new = map fst old" if "grown c old new" for c old new
    using that unfolding grown_def
    by (induction old new rule: list_all2_induct) simp_all
  from this [OF accumulate_grown [of order people]] show ?thesis
    by (simp add: comp_def split_beta)
qed

lemma normalized_keys:
  "list_all2 normalized_entry old new \<Longrightarrow> map fst new = map fst old"
  by (induction old new rule: list_all2_induct) (simp_all add: normalized_entry_def)

text \<open>
  C10. After the enumeration of \<^verbatim>\<open>main\<close> the accumulator has one entry for every person
  of the population, in which the three accumulated gene values have a positive sum and
  the two trait values have a positive sum; so \<^verbatim>\<open>normalize\<close> divides by no zero: it
  raises nothing and returns the normalised entry of every person.
\<close>

theorem accumulate_positive:
  assumes "lists_sets order (set (map fst people))"
  shows "map fst (accumulate order people) = map fst people
       \<and> list_all (\<lambda>entry. 0 < gene_sum (snd entry) \<and> 0 < trait_sum (snd entry))
            (accumulate order people)
       \<and> (\<exists>normalized. normalize (accumulate order people) = Inr normalized
             \<and> map fst normalized = map fst people
             \<and> list_all2 normalized_entry (accumulate order people) normalized)"
proof -
  have keys: "map fst (accumulate order people) = map fst people"
    by (rule accumulate_keys)
  have pos: "list_all (\<lambda>entry. 0 < gene_sum (snd entry) \<and> 0 < trait_sum (snd entry))
               (accumulate order people)"
    using accumulate_sums [of order people] visited_mass_pos [OF assms]
    by (simp add: list_all_iff)
  then have "list_all (\<lambda>entry. gene_sum (snd entry) \<noteq> 0 \<and> trait_sum (snd entry) \<noteq> 0)
               (accumulate order people)"
    by (auto simp: list_all_iff)
  from normalize_all [OF this] obtain normalized where
    run: "normalize (accumulate order people) = Inr normalized"
    and entries: "list_all2 normalized_entry (accumulate order people) normalized"
    by blast
  from normalized_keys [OF entries] keys have "map fst normalized = map fst people"
    by simp
  with keys pos run entries show ?thesis by blast
qed

theorem accumulate_positive_witness:
  "lists_sets (\<lambda>S. filter (\<lambda>x. x \<in> S) [''Harry'', ''James'', ''Lily'']) (set (map fst family))
   \<and> map fst (accumulate (\<lambda>S. filter (\<lambda>x. x \<in> S) [''Harry'', ''James'', ''Lily'']) family)
       = [''Harry'', ''James'', ''Lily'']
   \<and> list_all (\<lambda>entry. 0 < gene_sum (snd entry) \<and> 0 < trait_sum (snd entry))
        (accumulate (\<lambda>S. filter (\<lambda>x. x \<in> S) [''Harry'', ''James'', ''Lily'']) family)
   \<and> (\<exists>normalized.
         normalize
           (accumulate (\<lambda>S. filter (\<lambda>x. x \<in> S) [''Harry'', ''James'', ''Lily'']) family)
         = Inr normalized
         \<and> map fst normalized = [''Harry'', ''James'', ''Lily''])"
proof -
  have l: "lists_sets (\<lambda>S. filter (\<lambda>x. x \<in> S) [''Harry'', ''James'', ''Lily''])
             (set (map fst family))"
    unfolding lists_sets_def family_def by auto
  have k: "map fst family = [''Harry'', ''James'', ''Lily'']"
    by (simp add: family_def)
  from accumulate_positive [OF l, unfolded k] obtain normalized where
    keys: "map fst (accumulate (\<lambda>S. filter (\<lambda>x. x \<in> S) [''Harry'', ''James'', ''Lily'']) family)
             = [''Harry'', ''James'', ''Lily'']"
    and pos: "list_all (\<lambda>entry. 0 < gene_sum (snd entry) \<and> 0 < trait_sum (snd entry))
        (accumulate (\<lambda>S. filter (\<lambda>x. x \<in> S) [''Harry'', ''James'', ''Lily'']) family)"
    and run: "normalize
           (accumulate (\<lambda>S. filter (\<lambda>x. x \<in> S) [''Harry'', ''James'', ''Lily'']) family)
         = Inr normalized"
    and names: "map fst normalized = [''Harry'', ''James'', ''Lily'']"
    by (elim conjE exE)
  show ?thesis
    by (intro conjI exI [of _ normalized]) (fact l keys pos run names)+
qed

section \<open>Project 2: pagerank\<close>

subsection \<open>The corpus and the transition model\<close>

text \<open>
  The corpus is a dictionary from each page to the set of the pages it links to; a
  dictionary is an association list in insertion order. \<^verbatim>\<open>crawl\<close> keeps only the links to
  other pages of the corpus: \<open>wf_corpus\<close>. Floating-point numbers are modelled by the
  real numbers.
\<close>

type_synonym page = string
type_synonym corpus = "(page \<times> page set) list"
type_synonym ranks = "(page \<times> real) list"

definition wf_corpus :: "corpus \<Rightarrow> bool" where
  "wf_corpus corpus \<longleftrightarrow>
     distinct (map fst corpus)
     \<and> list_all (\<lambda>(page, links). finite links \<and> links \<subseteq> set (map fst corpus)) corpus"

text \<open>\<^verbatim>\<open>d[k]\<close> raises KeyError when the key is missing.\<close>

definition getitem :: "('k \<times> 'v) list \<Rightarrow> 'k \<Rightarrow> error + 'v" where
  "getitem d k = (case map_of d k of None \<Rightarrow> Inl KeyError | Some v \<Rightarrow> Inr v)"

definition transition_model :: "corpus \<Rightarrow> page \<Rightarrow> real \<Rightarrow> error + ranks" where
  "transition_model corpus page damping_factor =
     (case getitem corpus page of
        Inl e \<Rightarrow> Inl e
      | Inr links \<Rightarrow>
          let num_of_links_from_page = card links;
              num_of_pages = length corpus
          in if num_of_links_from_page = 0
             then Inr (map (\<lambda>(key, _). (key, 1 / real num_of_pages)) corpus)
             else
               let unlinked_page_probability =
                     (1 - damping_factor) * (1 / real num_of_pages);
                   linked_page_probability =
                     damping_factor * (1 / real num_of_links_from_page)
                       + unlinked_page_probability
               in Inr (map (\<lambda>(temp_page, _).
                              (temp_page,
                               if temp_page \<in> links then linked_page_probability
                               else unlinked_page_probability))
                         corpus))"

lemma sum_list_indicator:
  assumes "distinct ks" and "finite A" and "A \<subseteq> set ks"
  shows "sum_list (map (\<lambda>k. if k \<in> A then x else (0 :: real)) ks) = real (card A) * x"
proof -
  have "sum_list (map (\<lambda>k. if k \<in> A then x else 0) ks)
        = sum (\<lambda>k. if k \<in> A then x else 0) (set ks)"
    using assms(1) by (rule sum_list_distinct_conv_sum_set)
  also have "\<dots> = sum (\<lambda>k. x) A"
    using assms(3) by (intro sum.mono_neutral_cong_right) auto
  also have "\<dots> = real (card A) * x" by simp
  finally show ?thesis .
qed

lemma sum_list_split:
  "sum_list (map (\<lambda>k. if k \<in> A then a else (b :: real)) ks)
   = sum_list (map (\<lambda>k. if k \<in> A then a - b else 0) ks) + real (length ks) * b"
  by (induction ks) (auto simp: algebra_simps)

text \<open>
  C6. On a corpus whose links stay inside it, for a page of the corpus and a damping
  factor between 0 and 1: without outbound links \<^verbatim>\<open>transition_model\<close> gives every page
  of the corpus 1/pageCount; otherwise it gives each linked page
  dampingFactor/outDegree + (1 - dampingFactor)/pageCount and every other page
  (1 - dampingFactor)/pageCount. The values are not negative and sum to 1 (in exact
  arithmetic).
\<close>

theorem transition_model_distribution:
  assumes "wf_corpus corpus" and "map_of corpus page = Some links"
    and "0 \<le> damping_factor" and "damping_factor \<le> 1"
  shows "\<exists>dist. transition_model corpus page damping_factor = Inr dist
           \<and> map fst dist = map fst corpus
           \<and> list_all (\<lambda>(p, v).
                 v = (if links = {} then 1 / real (length corpus)
                      else if p \<in> links
                           then damping_factor / real (card links)
                                  + (1 - damping_factor) / real (length corpus)
                           else (1 - damping_factor) / real (length corpus))
                 \<and> 0 \<le> v) dist
           \<and> sum_list (map snd dist) = 1"
proof -
  let ?N = "real (length corpus)"
  from assms(2) have "(page, links) \<in> set corpus" by (rule map_of_SomeD)
  with assms(1) have fin: "finite links" and sub: "links \<subseteq> set (map fst corpus)"
    and dist: "distinct (map fst corpus)" and N: "0 < ?N"
    by (auto simp: wf_corpus_def list_all_iff)
  show ?thesis
  proof (cases "links = {}")
    case True
    let ?d = "map (\<lambda>(key, _). (key, 1 / ?N)) corpus"
    have "transition_model corpus page damping_factor = Inr ?d"
      using assms(2) True by (simp add: transition_model_def getitem_def)
    moreover have "map fst ?d = map fst corpus" by (simp add: split_beta)
    moreover have s: "map snd ?d = map (\<lambda>_. 1 / ?N) corpus"
      by (simp add: split_beta comp_def)
    have "sum_list (map snd ?d) = 1"
      unfolding s using N by (simp add: sum_list_triv)
    moreover have "list_all (\<lambda>(p, v). v = 1 / ?N \<and> 0 \<le> v) ?d"
      by (auto simp: list_all_iff)
    ultimately show ?thesis using True by auto
  next
    case False
    with fin have L: "0 < card links" by (simp add: card_gt_0_iff)
    let ?u = "(1 - damping_factor) * (1 / ?N)"
    let ?l = "damping_factor * (1 / real (card links)) + ?u"
    let ?d = "map (\<lambda>(temp_page, _). (temp_page, if temp_page \<in> links then ?l else ?u)) corpus"
    have "transition_model corpus page damping_factor = Inr ?d"
      using assms(2) L by (simp add: transition_model_def getitem_def Let_def split_beta)
    moreover have "map fst ?d = map fst corpus" by (simp add: split_beta)
    moreover have s: "map snd ?d = map (\<lambda>k. if k \<in> links then ?l else ?u) (map fst corpus)"
      by (simp add: split_beta comp_def)
    have total: "sum_list (map snd ?d) = real (card links) * (?l - ?u) + ?N * ?u"
      unfolding s sum_list_split [of links ?l ?u] sum_list_indicator [OF dist fin sub]
      by simp
    have "real (card links) * (?l - ?u) + ?N * ?u = 1"
      using L N by (simp add: field_simps)
    with total have "sum_list (map snd ?d) = 1"
      by simp
    moreover have "0 \<le> ?u" "0 \<le> ?l"
      using assms(3,4) by simp_all
    then have "list_all (\<lambda>(p, v).
                 v = (if p \<in> links then damping_factor / real (card links)
                                          + (1 - damping_factor) / ?N
                      else (1 - damping_factor) / ?N) \<and> 0 \<le> v) ?d"
      by (auto simp: list_all_iff)
    ultimately show ?thesis using False by auto
  qed
qed

definition corpus3 :: corpus where
  "corpus3 = [(''1.html'', {''2.html''}), (''2.html'', {''1.html'', ''3.html''}),
              (''3.html'', {})]"

theorem transition_model_distribution_witness:
  "wf_corpus corpus3 \<and> map_of corpus3 ''2.html'' = Some {''1.html'', ''3.html''}
   \<and> (0 :: real) \<le> 0.85 \<and> (0.85 :: real) \<le> 1
   \<and> (\<exists>dist. transition_model corpus3 ''2.html'' 0.85 = Inr dist
          \<and> map fst dist = map fst corpus3
          \<and> list_all (\<lambda>(p, v).
                v = (if {''1.html'', ''3.html''} = ({} :: page set)
                     then 1 / real (length corpus3)
                     else if p \<in> {''1.html'', ''3.html''}
                          then 0.85 / real (card {''1.html'', ''3.html''})
                                 + (1 - 0.85) / real (length corpus3)
                          else (1 - 0.85) / real (length corpus3))
                \<and> 0 \<le> v) dist
          \<and> sum_list (map snd dist) = 1)
   \<and> transition_model corpus3 ''2.html'' 0.85
       = Inr [(''1.html'', 0.475), (''2.html'', 0.05), (''3.html'', 0.475)]"
proof -
  have wf: "wf_corpus corpus3"
    by (simp add: wf_corpus_def corpus3_def)
  have page: "map_of corpus3 ''2.html'' = Some {''1.html'', ''3.html''}"
    by (simp add: corpus3_def)
  have "transition_model corpus3 ''2.html'' 0.85
        = Inr [(''1.html'', 0.475), (''2.html'', 0.05), (''3.html'', 0.475)]"
    by (simp add: transition_model_def getitem_def corpus3_def Let_def)
  with wf page transition_model_distribution [OF wf page, of "0.85"] show ?thesis
    by simp
qed

subsection \<open>Sampling\<close>

text \<open>
  The two random draws are parameters: \<open>choice xs\<close> is what \<^verbatim>\<open>random.choice(xs)\<close>
  returns, \<open>choices i xs ws\<close> what \<^verbatim>\<open>random.choices(xs, ws)[0]\<close> returns in round \<open>i\<close> of
  the loop. \<^verbatim>\<open>random.choice\<close> raises IndexError on an empty list, \<^verbatim>\<open>random.choices\<close>
  raises ValueError when the weights do not sum to a positive number.
\<close>

definition sample_step ::
  "(nat \<Rightarrow> page list \<Rightarrow> real list \<Rightarrow> page) \<Rightarrow> corpus \<Rightarrow> real \<Rightarrow> int \<Rightarrow> nat
   \<Rightarrow> error + page \<times> ranks \<Rightarrow> error + page \<times> ranks" where
  "sample_step choices corpus damping_factor n i acc =
     (case acc of
        Inl e \<Rightarrow> Inl e
      | Inr (cur_page, result_dict) \<Rightarrow>
          (case transition_model corpus cur_page damping_factor of
             Inl e \<Rightarrow> Inl e
           | Inr trans_model \<Rightarrow>
               if sum_list (map snd trans_model) \<le> 0 then Inl ValueError
               else
                 let cur_page = choices i (map fst trans_model) (map snd trans_model)
                 in Inr (cur_page,
                         AList.update cur_page
                           ((case map_of result_dict cur_page of None \<Rightarrow> 0 | Some v \<Rightarrow> v)
                              + 1 / real_of_int n)
                           result_dict)))"

definition sample_pagerank ::
  "(page list \<Rightarrow> page) \<Rightarrow> (nat \<Rightarrow> page list \<Rightarrow> real list \<Rightarrow> page) \<Rightarrow> corpus \<Rightarrow> real \<Rightarrow> int
   \<Rightarrow> error + ranks" where
  "sample_pagerank choice choices corpus damping_factor n =
     (let pages = map fst corpus
      in if pages = [] then Inl IndexError
         else
           let init_page = choice pages
           in if n = 0 then Inl ZeroDivisionError
              else
                (case fold (sample_step choices corpus damping_factor n) [0..<nat (n - 1)]
                        (Inr (init_page, [(init_page, 1 / real_of_int n)])) of
                   Inl e \<Rightarrow> Inl e
                 | Inr (cur_page, result_dict) \<Rightarrow> Inr result_dict))"

text \<open>
  C5 fails on the code. A walk of one step from the first page of a two-page corpus:
  the dictionary returned has an entry for the page visited and none for the other
  page, where the claim has the frequency 0.
\<close>

definition corpus2 :: corpus where
  "corpus2 = [(''1.html'', {''2.html''}), (''2.html'', {''1.html''})]"

theorem sample_pagerank_unvisited:
  "sample_pagerank hd (\<lambda>i xs ws. hd xs) corpus2 0.85 1 = Inr [(''1.html'', 1)]
   \<and> getitem [(''1.html'', 1 :: real)] ''2.html'' = Inl KeyError"
  by (simp add: sample_pagerank_def corpus2_def getitem_def Let_def)

subsection \<open>Iteration\<close>

definition margin :: real where
  "margin = 0.001"

text \<open>The inner loop over \<^verbatim>\<open>src_page\<close>, for one \<^verbatim>\<open>dest_page\<close>.\<close>

definition incoming :: "corpus \<Rightarrow> ranks \<Rightarrow> page \<Rightarrow> error + real" where
  "incoming corpus pre_result_dict dest_page =
     fold (\<lambda>(src_page, links) acc.
             case acc of
               Inl e \<Rightarrow> Inl e
             | Inr updated_value \<Rightarrow>
                 if dest_page \<in> links
                 then (case getitem pre_result_dict src_page of
                         Inl e \<Rightarrow> Inl e
                       | Inr r \<Rightarrow> Inr (updated_value + r / real (card links)))
                 else if card links = 0
                 then (case getitem pre_result_dict src_page of
                         Inl e \<Rightarrow> Inl e
                       | Inr r \<Rightarrow> Inr (updated_value + r / real (length corpus)))
                 else Inr updated_value)
          corpus (Inr 0)"

text \<open>
  One round of the \<^verbatim>\<open>while\<close> loop: the new value of every page goes into
  \<^verbatim>\<open>cur_result_dict\<close>, and the pages that moved by less than the margin are counted.
\<close>

definition one_pass :: "corpus \<Rightarrow> real \<Rightarrow> ranks \<Rightarrow> ranks \<Rightarrow> error + ranks \<times> nat" where
  "one_pass corpus damping_factor pre_result_dict cur_result_dict =
     fold (\<lambda>(dest_page, _) acc.
             case acc of
               Inl e \<Rightarrow> Inl e
             | Inr (cur_result_dict, num_converged) \<Rightarrow>
                 (case incoming corpus pre_result_dict dest_page of
                    Inl e \<Rightarrow> Inl e
                  | Inr updated_value \<Rightarrow>
                      let updated_value = updated_value * damping_factor;
                          updated_value =
                            updated_value + (1 - damping_factor) / real (length corpus);
                          cur_result_dict = AList.update dest_page updated_value cur_result_dict
                      in (case getitem pre_result_dict dest_page of
                            Inl e \<Rightarrow> Inl e
                          | Inr old \<Rightarrow>
                              Inr (cur_result_dict,
                                   if \<bar>updated_value - old\<bar> < margin then num_converged + 1
                                   else num_converged))))
          corpus (Inr (cur_result_dict, 0))"

text \<open>
  The \<^verbatim>\<open>while True\<close> loop. It may run forever: the result is an option, \<open>None\<close> when the
  loop does not end. On leaving, it returns \<^verbatim>\<open>pre_result_dict\<close>.
\<close>

partial_function (option) iterate_loop ::
  "corpus \<Rightarrow> real \<Rightarrow> ranks \<Rightarrow> ranks \<Rightarrow> (error + ranks) option" where
  "iterate_loop corpus damping_factor pre_result_dict cur_result_dict =
     (case one_pass corpus damping_factor pre_result_dict cur_result_dict of
        Inl e \<Rightarrow> Some (Inl e)
      | Inr (cur_result_dict, num_converged) \<Rightarrow>
          if num_converged = length corpus then Some (Inr pre_result_dict)
          else iterate_loop corpus damping_factor cur_result_dict cur_result_dict)"

definition iterate_pagerank :: "corpus \<Rightarrow> real \<Rightarrow> (error + ranks) option" where
  "iterate_pagerank corpus damping_factor =
     (let num_of_pages = length corpus;
          pre_result_dict = map (\<lambda>(page, _). (page, 1 / real num_of_pages)) corpus;
          cur_result_dict = pre_result_dict
      in iterate_loop corpus damping_factor pre_result_dict cur_result_dict)"

subsection \<open>One round as a map on rank vectors\<close>

text \<open>The rank of a page in a dictionary, and the share of a source's rank that goes to
  a destination.\<close>

definition rank_of :: "ranks \<Rightarrow> page \<Rightarrow> real" where
  "rank_of rs k = (case map_of rs k of None \<Rightarrow> 0 | Some v \<Rightarrow> v)"

definition share :: "nat \<Rightarrow> page set \<Rightarrow> page \<Rightarrow> real" where
  "share n links dest =
     (if dest \<in> links then 1 / real (card links)
      else if card links = 0 then 1 / real n else 0)"

definition next_rank :: "corpus \<Rightarrow> real \<Rightarrow> (page \<Rightarrow> real) \<Rightarrow> page \<Rightarrow> real" where
  "next_rank corpus d f dest =
     sum_list (map (\<lambda>(src, links). f src * share (length corpus) links dest) corpus) * d
       + (1 - d) / real (length corpus)"

lemma getitem_rank_of:
  "k \<in> set (map fst rs) \<Longrightarrow> getitem rs k = Inr (rank_of rs k)"
  by (auto simp: getitem_def rank_of_def map_of_eq_None_iff split: option.splits)

lemma incoming_fold:
  assumes "set (map fst xs) \<subseteq> set (map fst rs)"
  shows "fold (\<lambda>(src_page, links) acc.
             case acc of
               Inl e \<Rightarrow> Inl e
             | Inr updated_value \<Rightarrow>
                 if dest \<in> links
                 then (case getitem rs src_page of
                         Inl e \<Rightarrow> Inl e
                       | Inr r \<Rightarrow> Inr (updated_value + r / real (card links)))
                 else if card links = 0
                 then (case getitem rs src_page of
                         Inl e \<Rightarrow> Inl e
                       | Inr r \<Rightarrow> Inr (updated_value + r / real n))
                 else Inr updated_value)
          xs (Inr acc)
         = Inr (acc + sum_list (map (\<lambda>(src, links). rank_of rs src * share n links dest) xs))"
  using assms
proof (induction xs arbitrary: acc)
  case Nil
  then show ?case by simp
next
  case (Cons x xs)
  obtain src links where x: "x = (src, links)" by (cases x)
  from Cons.prems have "src \<in> set (map fst rs)"
    and rest: "set (map fst xs) \<subseteq> set (map fst rs)"
    by (auto simp: x)
  then have src: "getitem rs src = Inr (rank_of rs src)"
    by (intro getitem_rank_of)
  show ?case
    unfolding x by (simp add: src Cons.IH [OF rest] share_def algebra_simps)
qed

lemma incoming_eq:
  assumes "map fst rs = map fst corpus"
  shows "incoming corpus rs dest
         = Inr (sum_list (map (\<lambda>(src, links). rank_of rs src * share (length corpus) links dest)
                            corpus))"
  unfolding incoming_def using incoming_fold [of corpus rs dest "length corpus" 0] assms
  by simp

lemma one_pass_fold:
  assumes "map fst pre = map fst corpus" and "set (map fst xs) \<subseteq> set (map fst corpus)"
  shows "fold (\<lambda>(dest_page, _) acc.
             case acc of
               Inl e \<Rightarrow> Inl e
             | Inr (cur_result_dict, num_converged) \<Rightarrow>
                 (case incoming corpus pre dest_page of
                    Inl e \<Rightarrow> Inl e
                  | Inr updated_value \<Rightarrow>
                      let updated_value = updated_value * d;
                          updated_value = updated_value + (1 - d) / real (length corpus);
                          cur_result_dict = AList.update dest_page updated_value cur_result_dict
                      in (case getitem pre dest_page of
                            Inl e \<Rightarrow> Inl e
                          | Inr old \<Rightarrow>
                              Inr (cur_result_dict,
                                   if \<bar>updated_value - old\<bar> < margin then num_converged + 1
                                   else num_converged))))
          xs (Inr (c, n))
         = Inr (fold (\<lambda>(dest, _). AList.update dest (next_rank corpus d (rank_of pre) dest)) xs c,
                n + length (filter (\<lambda>(dest, _).
                              \<bar>next_rank corpus d (rank_of pre) dest - rank_of pre dest\<bar> < margin)
                            xs))"
  using assms(2)
proof (induction xs arbitrary: c n)
  case Nil
  then show ?case by simp
next
  case (Cons x xs)
  obtain dest links where x: "x = (dest, links)" by (cases x)
  from Cons.prems have "dest \<in> set (map fst pre)"
    and rest: "set (map fst xs) \<subseteq> set (map fst corpus)"
    by (auto simp: x assms(1))
  then have old: "getitem pre dest = Inr (rank_of pre dest)"
    by (intro getitem_rank_of)
  show ?case
    unfolding x
    by (simp add: incoming_eq [OF assms(1)] old Cons.IH [OF rest] next_rank_def Let_def)
qed

lemma fold_update_keys:
  "set (map fst xs) \<subseteq> set (map fst c) \<Longrightarrow>
   map fst (fold (\<lambda>(k, _). AList.update k (g k)) xs c) = map fst c"
proof (induction xs arbitrary: c)
  case Nil
  then show ?case by simp
next
  case (Cons x xs)
  obtain k links where x: "x = (k, links)" by (cases x)
  from Cons.prems have "map fst (AList.update k (g k) c) = map fst c"
    by (simp add: x update_keys)
  with Cons.prems Cons.IH [of "AList.update k (g k) c"] show ?case
    by (simp add: x)
qed

lemma rank_of_update:
  "rank_of (AList.update k v c) k' = (if k' = k then v else rank_of c k')"
  by (simp add: rank_of_def update_conv')

lemma fold_update_rank:
  "rank_of (fold (\<lambda>(k, _). AList.update k (g k)) xs c) k'
   = (if k' \<in> set (map fst xs) then g k' else rank_of c k')"
proof (induction xs arbitrary: c)
  case Nil
  then show ?case by simp
next
  case (Cons x xs)
  obtain k links where x: "x = (k, links)" by (cases x)
  show ?case
    by (simp add: x Cons.IH rank_of_update)
qed

lemma length_filter_all:
  "length (filter P xs) = length xs \<longleftrightarrow> (\<forall>x\<in>set xs. P x)"
proof (induction xs)
  case Nil
  then show ?case by simp
next
  case (Cons x xs)
  have "length (filter P xs) \<noteq> Suc (length xs)"
    using length_filter_le [of P xs] by linarith
  with Cons show ?case by (cases "P x") auto
qed

text \<open>One round: it raises nothing, writes the next rank of every page, and counts the
  pages whose rank moved by less than the margin.\<close>

lemma one_pass_eq:
  assumes "map fst pre = map fst corpus" and "map fst cur = map fst corpus"
  shows "\<exists>cur' n. one_pass corpus d pre cur = Inr (cur', n)
           \<and> map fst cur' = map fst corpus
           \<and> (\<forall>k\<in>set (map fst corpus). rank_of cur' k = next_rank corpus d (rank_of pre) k)
           \<and> (n = length corpus \<longleftrightarrow>
                (\<forall>k\<in>set (map fst corpus).
                   \<bar>next_rank corpus d (rank_of pre) k - rank_of pre k\<bar> < margin))"
proof -
  let ?cur = "fold (\<lambda>(dest, _). AList.update dest (next_rank corpus d (rank_of pre) dest)) corpus cur"
  let ?n = "length (filter (\<lambda>(dest, _).
              \<bar>next_rank corpus d (rank_of pre) dest - rank_of pre dest\<bar> < margin) corpus)"
  have "one_pass corpus d pre cur = Inr (?cur, ?n)"
    unfolding one_pass_def using one_pass_fold [OF assms(1), of corpus d cur 0] by simp
  moreover have "map fst ?cur = map fst corpus"
    using fold_update_keys [of corpus cur] assms(2) by simp
  moreover have "\<forall>k\<in>set (map fst corpus). rank_of ?cur k = next_rank corpus d (rank_of pre) k"
    by (simp add: fold_update_rank)
  moreover have "?n = length corpus \<longleftrightarrow>
      (\<forall>k\<in>set (map fst corpus). \<bar>next_rank corpus d (rank_of pre) k - rank_of pre k\<bar> < margin)"
    unfolding length_filter_all by auto
  ultimately show ?thesis by blast
qed

subsection \<open>The round preserves distributions and contracts distances\<close>

text \<open>The keys of the corpus, \<^verbatim>\<open>corpus.keys()\<close>.\<close>

definition pages_of :: "corpus \<Rightarrow> page list" where
  "pages_of corpus = map fst corpus"

lemma share_nonneg: "0 \<le> share n links dest"
  by (simp add: share_def)

lemma wf_corpus_entry:
  assumes "wf_corpus corpus" and "(src, links) \<in> set corpus"
  shows "finite links" and "links \<subseteq> set (pages_of corpus)" and "distinct (pages_of corpus)"
    and "0 < length corpus"
  using assms by (auto simp: wf_corpus_def list_all_iff pages_of_def)

lemma length_pages_of [simp]: "length (pages_of corpus) = length corpus"
  by (simp add: pages_of_def)

text \<open>Every source hands out its whole rank: its shares sum to 1.\<close>

lemma share_sum:
  assumes "wf_corpus corpus" and "(src, links) \<in> set corpus"
  shows "sum_list (map (share (length corpus) links) (pages_of corpus)) = 1"
proof (cases "links = {}")
  case True
  then have eq: "share (length corpus) links = (\<lambda>_. 1 / real (length corpus))"
    by (auto simp: share_def)
  show ?thesis
    unfolding eq using wf_corpus_entry(4) [OF assms] by (simp add: sum_list_triv)
next
  case False
  with wf_corpus_entry(1) [OF assms] have L: "0 < card links"
    by (simp add: card_gt_0_iff)
  then have eq: "share (length corpus) links
             = (\<lambda>dest. if dest \<in> links then 1 / real (card links) else 0)"
    by (auto simp: share_def)
  show ?thesis
    unfolding eq sum_list_indicator [OF wf_corpus_entry(3,1,2) [OF assms]] using L by simp
qed

lemma sum_list_swap:
  "sum_list (map (\<lambda>x. sum_list (map (f x) ys)) xs)
   = (sum_list (map (\<lambda>y. sum_list (map (\<lambda>x. f x y) xs)) ys) :: real)"
  by (induction xs) (simp_all add: sum_list_addf)

lemma sum_list_cong:
  "(\<And>x. x \<in> set xs \<Longrightarrow> f x = g x) \<Longrightarrow> sum_list (map f xs) = sum_list (map g xs)"
  by (rule arg_cong [where f = sum_list]) simp

lemma sum_list_diff_prod:
  "sum_list (map (\<lambda>(a, b). (p a - q a) * w b) xs)
   = sum_list (map (\<lambda>(a, b). p a * w b) xs) - (sum_list (map (\<lambda>(a, b). q a * w b) xs) :: real)"
  by (induction xs) (auto simp: left_diff_distrib)

lemma sum_list_abs_prod:
  assumes "\<And>b. 0 \<le> w b"
  shows "\<bar>sum_list (map (\<lambda>(a, b). p a * w b) xs)\<bar>
         \<le> (sum_list (map (\<lambda>(a, b). \<bar>p a\<bar> * w b) xs) :: real)"
proof (induction xs)
  case Nil
  show ?case by simp
next
  case (Cons x xs)
  obtain a b where x: "x = (a, b)" by (cases x)
  have "\<bar>p a * w b\<bar> = \<bar>p a\<bar> * w b"
    using assms [of b] by (simp add: abs_mult)
  with Cons show ?case
    unfolding x by simp
qed

lemma sum_list_entries: "sum_list (map (\<lambda>entry. h (fst entry)) corpus) = sum_list (map h (pages_of corpus))"
  by (simp add: pages_of_def comp_def)

lemma weighted_shares_sum:
  assumes "wf_corpus corpus"
  shows "sum_list (map (\<lambda>dest.
             sum_list (map (\<lambda>(src, links). h src * share (length corpus) links dest) corpus))
           (pages_of corpus))
         = sum_list (map h (pages_of corpus))"
proof -
  have "sum_list (map (\<lambda>dest.
             sum_list (map (\<lambda>(src, links). h src * share (length corpus) links dest) corpus))
           (pages_of corpus))
        = sum_list (map (\<lambda>entry.
             sum_list (map (\<lambda>dest. h (fst entry) * share (length corpus) (snd entry) dest)
                         (pages_of corpus)))
           corpus)"
    by (subst sum_list_swap) (simp add: split_beta)
  also have "\<dots> = sum_list (map (\<lambda>entry. h (fst entry)) corpus)"
  proof (rule sum_list_cong)
    fix entry assume "entry \<in> set corpus"
    then have "sum_list (map (share (length corpus) (snd entry)) (pages_of corpus)) = 1"
      using share_sum [OF assms, of "fst entry" "snd entry"] by simp
    then show "sum_list (map (\<lambda>dest. h (fst entry) * share (length corpus) (snd entry) dest)
                           (pages_of corpus)) = h (fst entry)"
      by (simp add: sum_list_const_mult)
  qed
  also have "\<dots> = sum_list (map h (pages_of corpus))"
    by (rule sum_list_entries)
  finally show ?thesis .
qed

lemma next_rank_total:
  assumes "wf_corpus corpus" and "corpus \<noteq> []"
  shows "sum_list (map (next_rank corpus d f) (pages_of corpus))
         = d * sum_list (map f (pages_of corpus)) + (1 - d)"
proof -
  have "sum_list (map (next_rank corpus d f) (pages_of corpus))
        = sum_list (map (\<lambda>dest.
             sum_list (map (\<lambda>(src, links). f src * share (length corpus) links dest) corpus))
           (pages_of corpus)) * d
          + real (length corpus) * ((1 - d) / real (length corpus))"
    unfolding next_rank_def
    by (simp add: sum_list_addf sum_list_mult_const sum_list_triv)
  also have "\<dots> = d * sum_list (map f (pages_of corpus)) + (1 - d)"
    unfolding weighted_shares_sum [OF assms(1)] using assms(2) by simp
  finally show ?thesis .
qed

lemma next_rank_nonneg:
  assumes "0 \<le> d" and "d \<le> 1" and "\<forall>k\<in>set (pages_of corpus). 0 \<le> f k"
  shows "0 \<le> next_rank corpus d f dest"
proof -
  have "0 \<le> sum_list (map (\<lambda>(src, links). f src * share (length corpus) links dest) corpus)"
    using assms(3) by (intro sum_list_nonneg) (auto simp: share_nonneg pages_of_def)
  with assms(1,2) show ?thesis
    by (simp add: next_rank_def)
qed

lemma next_rank_cong:
  assumes "\<forall>k\<in>set (pages_of corpus). f k = g k"
  shows "next_rank corpus d f dest = next_rank corpus d g dest"
proof -
  have "sum_list (map (\<lambda>(src, links). f src * share (length corpus) links dest) corpus)
        = sum_list (map (\<lambda>(src, links). g src * share (length corpus) links dest) corpus)"
    using assms by (intro sum_list_cong) (auto simp: pages_of_def)
  then show ?thesis by (simp add: next_rank_def)
qed

lemma next_rank_contracts:
  assumes "wf_corpus corpus" and "0 \<le> d"
  shows "sum_list (map (\<lambda>dest. \<bar>next_rank corpus d f dest - next_rank corpus d g dest\<bar>)
                    (pages_of corpus))
         \<le> d * sum_list (map (\<lambda>src. \<bar>f src - g src\<bar>) (pages_of corpus))"
proof -
  have step: "\<bar>next_rank corpus d f dest - next_rank corpus d g dest\<bar>
        \<le> sum_list (map (\<lambda>(src, links). \<bar>f src - g src\<bar> * share (length corpus) links dest)
                       corpus) * d" for dest
  proof -
    have "next_rank corpus d f dest - next_rank corpus d g dest
          = sum_list (map (\<lambda>(src, links). (f src - g src) * share (length corpus) links dest)
                        corpus) * d"
    proof -
      have "sum_list (map (\<lambda>(src, links). (f src - g src) * share (length corpus) links dest)
                        corpus)
            = sum_list (map (\<lambda>(src, links). f src * share (length corpus) links dest) corpus)
              - sum_list (map (\<lambda>(src, links). g src * share (length corpus) links dest) corpus)"
        by (rule sum_list_diff_prod)
      then show ?thesis
        by (simp add: next_rank_def left_diff_distrib)
    qed
    moreover have "\<bar>sum_list (map (\<lambda>(src, links).
                      (f src - g src) * share (length corpus) links dest) corpus)\<bar>
          \<le> sum_list (map (\<lambda>(src, links).
                      \<bar>f src - g src\<bar> * share (length corpus) links dest) corpus)"
      by (rule sum_list_abs_prod) (simp add: share_nonneg)
    ultimately show ?thesis
      using assms(2) by (simp add: abs_mult mult_right_mono)
  qed
  have "sum_list (map (\<lambda>dest. \<bar>next_rank corpus d f dest - next_rank corpus d g dest\<bar>)
                    (pages_of corpus))
        \<le> sum_list (map (\<lambda>dest.
              sum_list (map (\<lambda>(src, links). \<bar>f src - g src\<bar> * share (length corpus) links dest)
                          corpus) * d)
            (pages_of corpus))"
    by (intro sum_list_mono step)
  also have "\<dots> = d * sum_list (map (\<lambda>src. \<bar>f src - g src\<bar>) (pages_of corpus))"
    unfolding sum_list_mult_const weighted_shares_sum [OF assms(1)] by simp
  finally show ?thesis .
qed

subsection \<open>The loop ends\<close>

text \<open>The invariant of \<^verbatim>\<open>pre_result_dict\<close>: its keys are the pages of the corpus, its values
  are non-negative and sum to 1.\<close>

definition dist_inv :: "corpus \<Rightarrow> ranks \<Rightarrow> bool" where
  "dist_inv corpus rs \<longleftrightarrow>
     map fst rs = map fst corpus
     \<and> (\<forall>k\<in>set (pages_of corpus). 0 \<le> rank_of rs k)
     \<and> sum_list (map (rank_of rs) (pages_of corpus)) = 1"

text \<open>The distance that a round moves a dictionary.\<close>

definition delta :: "corpus \<Rightarrow> real \<Rightarrow> ranks \<Rightarrow> real" where
  "delta corpus d rs =
     sum_list (map (\<lambda>k. \<bar>next_rank corpus d (rank_of rs) k - rank_of rs k\<bar>) (pages_of corpus))"

lemma delta_nonneg: "0 \<le> delta corpus d rs"
  unfolding delta_def by (intro sum_list_nonneg) auto

lemma member_le_sum_abs:
  "k \<in> set ks \<Longrightarrow> \<bar>h k\<bar> \<le> sum_list (map (\<lambda>k. \<bar>h k :: real\<bar>) ks)"
proof (induction ks)
  case Nil
  then show ?case by simp
next
  case (Cons a ks)
  have "0 \<le> sum_list (map (\<lambda>k. \<bar>h k\<bar>) ks)"
    by (intro sum_list_nonneg) auto
  with Cons show ?case by auto
qed

lemma member_le_delta:
  assumes "k \<in> set (pages_of corpus)"
  shows "\<bar>next_rank corpus d (rank_of rs) k - rank_of rs k\<bar> \<le> delta corpus d rs"
  unfolding delta_def by (rule member_le_sum_abs [OF assms])

lemma dist_inv_next:
  assumes wf: "wf_corpus corpus" and ne: "corpus \<noteq> []" and d: "0 \<le> d" "d \<le> 1"
    and pre: "dist_inv corpus pre"
    and keys: "map fst cur = map fst corpus"
    and cur: "\<forall>k\<in>set (pages_of corpus). rank_of cur k = next_rank corpus d (rank_of pre) k"
  shows "dist_inv corpus cur"
proof -
  have nonneg: "\<forall>k\<in>set (pages_of corpus). 0 \<le> rank_of cur k"
    using cur next_rank_nonneg [OF d, of corpus "rank_of pre"] pre
    by (simp add: dist_inv_def)
  have "sum_list (map (rank_of cur) (pages_of corpus))
        = sum_list (map (next_rank corpus d (rank_of pre)) (pages_of corpus))"
    using cur by (intro sum_list_cong) simp
  also have "\<dots> = d * sum_list (map (rank_of pre) (pages_of corpus)) + (1 - d)"
    by (rule next_rank_total [OF wf ne])
  also have "\<dots> = 1"
    using pre by (simp add: dist_inv_def)
  finally show ?thesis
    using keys nonneg by (simp add: dist_inv_def)
qed

lemma delta_next:
  assumes wf: "wf_corpus corpus" and d: "0 \<le> d"
    and cur: "\<forall>k\<in>set (pages_of corpus). rank_of cur k = next_rank corpus d (rank_of pre) k"
  shows "delta corpus d cur \<le> d * delta corpus d pre"
proof -
  have "delta corpus d cur
        = sum_list (map (\<lambda>k. \<bar>next_rank corpus d (rank_of cur) k
                                - next_rank corpus d (rank_of pre) k\<bar>) (pages_of corpus))"
    unfolding delta_def using cur by (intro sum_list_cong) simp
  also have "\<dots> \<le> d * sum_list (map (\<lambda>k. \<bar>rank_of cur k - rank_of pre k\<bar>) (pages_of corpus))"
    by (rule next_rank_contracts [OF wf d])
  also have "sum_list (map (\<lambda>k. \<bar>rank_of cur k - rank_of pre k\<bar>) (pages_of corpus))
             = delta corpus d pre"
    unfolding delta_def using cur by (intro sum_list_cong) simp
  finally show ?thesis .
qed

text \<open>Once \<open>d ^ j\<close> times the first move is below the margin, the loop ends within \<open>j\<close>
  further rounds, and returns a distribution.\<close>

lemma loop_terminates:
  assumes wf: "wf_corpus corpus" and ne: "corpus \<noteq> []" and d: "0 \<le> d" "d \<le> 1"
  shows "dist_inv corpus pre \<Longrightarrow> map fst cur = map fst corpus \<Longrightarrow>
         d ^ j * delta corpus d pre < margin \<Longrightarrow>
         \<exists>rs. iterate_loop corpus d pre cur = Some (Inr rs) \<and> dist_inv corpus rs"
proof (induction j arbitrary: pre cur)
  case 0
  from "0.prems"(1) have keys: "map fst pre = map fst corpus"
    by (simp add: dist_inv_def)
  from one_pass_eq [OF keys "0.prems"(2), of d] obtain cur' n where
    pass: "one_pass corpus d pre cur = Inr (cur', n)"
    and conv: "n = length corpus \<longleftrightarrow>
                (\<forall>k\<in>set (map fst corpus).
                   \<bar>next_rank corpus d (rank_of pre) k - rank_of pre k\<bar> < margin)"
    by blast
  have "\<bar>next_rank corpus d (rank_of pre) k - rank_of pre k\<bar> < margin"
    if "k \<in> set (pages_of corpus)" for k
    using member_le_delta [OF that, of d pre] "0.prems"(3) by simp
  then have "n = length corpus"
    unfolding conv by (simp add: pages_of_def)
  then have "iterate_loop corpus d pre cur = Some (Inr pre)"
    by (subst iterate_loop.simps) (simp add: pass)
  with "0.prems"(1) show ?case by simp
next
  case (Suc j)
  from Suc.prems(1) have keys: "map fst pre = map fst corpus"
    by (simp add: dist_inv_def)
  from one_pass_eq [OF keys Suc.prems(2), of d] obtain cur' n where
    pass: "one_pass corpus d pre cur = Inr (cur', n)"
    and keys': "map fst cur' = map fst corpus"
    and vals: "\<forall>k\<in>set (map fst corpus). rank_of cur' k = next_rank corpus d (rank_of pre) k"
    by blast
  from vals have vals': "\<forall>k\<in>set (pages_of corpus).
      rank_of cur' k = next_rank corpus d (rank_of pre) k"
    by (simp add: pages_of_def)
  show ?case
  proof (cases "n = length corpus")
    case True
    then have "iterate_loop corpus d pre cur = Some (Inr pre)"
      by (subst iterate_loop.simps) (simp add: pass)
    with Suc.prems(1) show ?thesis by simp
  next
    case False
    then have step: "iterate_loop corpus d pre cur = iterate_loop corpus d cur' cur'"
      by (subst iterate_loop.simps) (simp add: pass)
    have inv: "dist_inv corpus cur'"
      by (rule dist_inv_next [OF wf ne d Suc.prems(1) keys' vals'])
    have "d ^ j * delta corpus d cur' \<le> d ^ j * (d * delta corpus d pre)"
      using delta_next [OF wf d(1) vals'] d(1) by (intro mult_left_mono) simp_all
    with Suc.prems(3) have "d ^ j * delta corpus d cur' < margin"
      by (simp add: mult.assoc mult.left_commute)
    from Suc.IH [OF inv keys' this] show ?thesis
      unfolding step .
  qed
qed

text \<open>The first dictionary gives \<^verbatim>\<open>1 / num_of_pages\<close> to every page.\<close>

lemma rank_of_uniform:
  "k \<in> set (map fst xs) \<Longrightarrow> rank_of (map (\<lambda>(page, _). (page, c)) xs) k = c"
  by (induction xs) (auto simp: rank_of_def)

lemma dist_inv_uniform:
  assumes "corpus \<noteq> []"
  shows "dist_inv corpus (map (\<lambda>(page, _). (page, 1 / real (length corpus))) corpus)"
proof -
  let ?pre = "map (\<lambda>(page, _). (page, 1 / real (length corpus))) corpus"
  have keys: "map fst ?pre = map fst corpus"
    by (simp add: comp_def split_beta)
  have vals: "rank_of ?pre k = 1 / real (length corpus)" if "k \<in> set (pages_of corpus)" for k
    using that by (intro rank_of_uniform) (simp add: pages_of_def)
  have "sum_list (map (rank_of ?pre) (pages_of corpus))
        = sum_list (map (\<lambda>_. 1 / real (length corpus)) (pages_of corpus))"
    by (intro sum_list_cong vals)
  also have "\<dots> = 1"
    using assms by (simp add: sum_list_triv)
  finally show ?thesis
    using keys vals by (simp add: dist_inv_def)
qed

lemma power_below:
  assumes "0 \<le> d" and "d < 1" and "0 \<le> (x :: real)"
  shows "\<exists>j. d ^ j * x < margin"
proof -
  have "0 < margin / (x + 1)"
    using assms(3) by (simp add: margin_def)
  from real_arch_pow_inv [OF this assms(2)] obtain j where j: "d ^ j < margin / (x + 1)"
    by blast
  have "d ^ j * x \<le> d ^ j * (x + 1)"
    using assms(1) by (intro mult_left_mono) simp_all
  also have "\<dots> < margin"
    using j assms(3) by (simp add: pos_less_divide_eq)
  finally show ?thesis by blast
qed

lemma values_of_ranks:
  "distinct (map fst rs) \<Longrightarrow> map (rank_of rs) (map fst rs) = map snd rs"
proof (induction rs)
  case Nil
  show ?case by simp
next
  case (Cons r rs)
  obtain k v where r: "r = (k, v)" by (cases r)
  from Cons.prems have k: "k \<notin> set (map fst rs)" and rest: "distinct (map fst rs)"
    by (simp_all add: r)
  have "map (rank_of ((k, v) # rs)) (map fst rs) = map (rank_of rs) (map fst rs)"
    using k by (intro map_cong) (auto simp: rank_of_def)
  with Cons.IH [OF rest] show ?case
    by (simp add: r rank_of_def)
qed

lemma dist_inv_values:
  assumes "wf_corpus corpus" and "dist_inv corpus rs"
  shows "map fst rs = map fst corpus" and "\<forall>v\<in>set (map snd rs). 0 \<le> v"
    and "sum_list (map snd rs) = 1"
proof -
  from assms(2) show keys: "map fst rs = map fst corpus"
    by (simp add: dist_inv_def)
  from assms(1) have "distinct (map fst rs)"
    by (simp add: keys wf_corpus_def)
  then have vals: "map snd rs = map (rank_of rs) (pages_of corpus)"
    by (simp only: values_of_ranks [symmetric] keys pages_of_def)
  from assms(2) show "\<forall>v\<in>set (map snd rs). 0 \<le> v"
    unfolding vals by (auto simp: dist_inv_def)
  from assms(2) show "sum_list (map snd rs) = 1"
    unfolding vals by (simp add: dist_inv_def)
qed

lemma iterate_pagerank_distribution:
  assumes "wf_corpus corpus" and "corpus \<noteq> []" and "0 \<le> d" and "d < 1"
  shows "\<exists>rs. iterate_pagerank corpus d = Some (Inr rs) \<and> dist_inv corpus rs"
proof -
  let ?pre = "map (\<lambda>(page, _). (page, 1 / real (length corpus))) corpus"
  have inv: "dist_inv corpus ?pre"
    by (rule dist_inv_uniform [OF assms(2)])
  then have keys: "map fst ?pre = map fst corpus"
    by (simp only: dist_inv_def)
  from power_below [OF assms(3,4) delta_nonneg] obtain j where
    "d ^ j * delta corpus d ?pre < margin"
    by blast
  from loop_terminates [OF assms(1,2,3) _ inv keys this] assms(4) show ?thesis
    by (simp add: iterate_pagerank_def Let_def)
qed

text \<open>
  C3. For a non-empty corpus whose links stay inside the corpus (as \<^verbatim>\<open>crawl\<close> builds it)
  and a damping factor \<open>0 \<le> d < 1\<close>, in particular 0.85, \<^verbatim>\<open>iterate_pagerank\<close> ends: the
  convergence test is met after finitely many rounds, no exception is raised, and the
  dictionary returned has exactly the pages of the corpus as keys, values that are each
  \<open>\<ge> 0\<close>, and a sum of values within 0.001 of 1 (the sum is 1 in exact arithmetic).
\<close>

theorem iterate_pagerank_converges:
  assumes "wf_corpus corpus" and "corpus \<noteq> []" and "0 \<le> d" and "d < 1"
  shows "\<exists>rs. iterate_pagerank corpus d = Some (Inr rs)
           \<and> map fst rs = map fst corpus
           \<and> (\<forall>v\<in>set (map snd rs). 0 \<le> v)
           \<and> \<bar>sum_list (map snd rs) - 1\<bar> \<le> 1 / 1000"
proof -
  from iterate_pagerank_distribution [OF assms] obtain rs where
    rs: "iterate_pagerank corpus d = Some (Inr rs)" and inv: "dist_inv corpus rs"
    by blast
  from dist_inv_values [OF assms(1) inv] rs show ?thesis
    by simp
qed

theorem iterate_pagerank_converges_witness:
  "wf_corpus corpus3 \<and> corpus3 \<noteq> [] \<and> (0 :: real) \<le> 0.85 \<and> (0.85 :: real) < 1
   \<and> (\<exists>rs. iterate_pagerank corpus3 0.85 = Some (Inr rs)
          \<and> map fst rs = map fst corpus3
          \<and> (\<forall>v\<in>set (map snd rs). 0 \<le> v)
          \<and> \<bar>sum_list (map snd rs) - 1\<bar> \<le> 1 / 1000)"
proof -
  have wf: "wf_corpus corpus3"
    by (simp add: wf_corpus_def corpus3_def)
  have ne: "corpus3 \<noteq> []"
    by (simp add: corpus3_def)
  from iterate_pagerank_converges [OF wf ne, of "0.85"] wf ne show ?thesis
    by simp
qed

end
